theory Spec2Isabelle
  imports Main
begin

section \<open>JavaScript strings and the hex helpers of the viem library\<close>

text \<open>
  Hex values, addresses and call data are JavaScript strings of the form \<open>0x...\<close>.
  They are modelled as \<open>string\<close>; every character that occurs is ASCII, so one
  \<open>char\<close> is one UTF-16 code unit.
\<close>

type_synonym hex = string

datatype error =
    InvalidArguments
  | NoMatchingPermission
  | NotImplemented
  | EnableSignatureNotSet
  | KernelAccountAddressNotProvided
  | InvalidExecutorData
  | InvalidSignedData string
  | SizeExceedsPaddingSize
  | IntegerOutOfRange
  | ChainNotFound
  | OwnerAccountNotFound
  | AccountAddressNotFound
  | SignTransactionNotSupportedBySmartAccount
  | NotAFunction
  | NotAnInteger
  | ExternalError string

text \<open>\<open>String.prototype.toLowerCase\<close> on ASCII.\<close>

definition toLowerChar :: "char \<Rightarrow> char" where
  "toLowerChar c =
     (let n = (of_char c :: nat) in if 65 \<le> n \<and> n \<le> 90 then char_of (n + 32) else c)"

definition toLowerCase :: "string \<Rightarrow> string" where
  "toLowerCase s = map toLowerChar s"

text \<open>\<open>s.slice(a, b)\<close> for non-negative indices.\<close>

definition slice :: "string \<Rightarrow> nat \<Rightarrow> nat \<Rightarrow> string" where
  "slice s a b = take (b - a) (drop a s)"

text \<open>
  The relational operators of JavaScript on two strings compare code units from the
  left; a proper prefix is smaller.
\<close>

fun strLess :: "string \<Rightarrow> string \<Rightarrow> bool" where
  "strLess [] [] = False"
| "strLess [] (y # ys) = True"
| "strLess (x # xs) [] = False"
| "strLess (x # xs) (y # ys) =
     ((of_char x :: nat) < of_char y \<or> (x = y \<and> strLess xs ys))"

text \<open>\<open>x.replace('0x', '')\<close>: the first occurrence of \<open>0x\<close> is removed.\<close>

fun replace0x :: "string \<Rightarrow> string" where
  "replace0x [] = []"
| "replace0x [c] = [c]"
| "replace0x (c # d # cs) =
     (if c = CHR ''0'' \<and> d = CHR ''x'' then cs else c # replace0x (d # cs))"

definition isHexChar :: "char \<Rightarrow> bool" where
  "isHexChar c = (c \<in> set ''0123456789abcdefABCDEF'')"

text \<open>viem \<open>isHex\<close> (strict): the regular expression \<open>^0x[0-9a-fA-F]*$\<close>.\<close>

definition isHex :: "string \<Rightarrow> bool" where
  "isHex v = (take 2 v = ''0x'' \<and> list_all isHexChar (drop 2 v))"

text \<open>viem \<open>pad\<close> on a string (\<open>padHex\<close>, direction left).\<close>

definition pad :: "string \<Rightarrow> nat \<Rightarrow> error + hex" where
  "pad hexv sz =
     (let h = replace0x hexv in
      if length h > sz * 2 then Inl SizeExceedsPaddingSize
      else Inr (''0x'' @ replicate (sz * 2 - length h) CHR ''0'' @ h))"

definition hexDigitChar :: "nat \<Rightarrow> char" where
  "hexDigitChar n = ''0123456789abcdef'' ! (n mod 16)"

text \<open>viem \<open>toHex\<close> on a string (\<open>stringToHex\<close>): two hex digits for each byte.\<close>

definition stringToHex :: "string \<Rightarrow> hex" where
  "stringToHex s =
     ''0x'' @ concat (map (\<lambda>c. [hexDigitChar ((of_char c :: nat) div 16),
                                 hexDigitChar ((of_char c :: nat) mod 16)]) s)"

text \<open>\<open>n.toString(16)\<close> and viem \<open>toHex\<close> on a non-negative integer.\<close>

function toString16 :: "nat \<Rightarrow> string" where
  "toString16 n =
     (if n < 16 then [hexDigitChar n] else toString16 (n div 16) @ [hexDigitChar (n mod 16)])"
  by pat_completeness auto
termination
  by (relation "measure id") auto

declare toString16.simps [simp del]

definition numberToHex :: "nat \<Rightarrow> hex" where
  "numberToHex n = ''0x'' @ toString16 n"

text \<open>
  viem \<open>toHex\<close> on a JavaScript number: an integer above \<open>Number.MAX_SAFE_INTEGER\<close>
  is refused. A bigint has no such bound.
\<close>

definition toHexNumber :: "nat \<Rightarrow> error + hex" where
  "toHexNumber n =
     (if n > 9007199254740991 then Inl IntegerOutOfRange else Inr (numberToHex n))"

text \<open>viem \<open>concat\<close> / \<open>concatHex\<close> on hex strings.\<close>

definition concatHex :: "hex list \<Rightarrow> hex" where
  "concatHex vs = ''0x'' @ concat (map replace0x vs)"

definition zeroAddress :: hex where
  "zeroAddress = ''0x0000000000000000000000000000000000000000''"

text \<open>\<open>pad("0x", { size: 4 })\<close> and \<open>pad("0x00", { size: 32 })\<close>.\<close>

definition emptySelector :: hex where
  "emptySelector = ''0x00000000''"

definition zeroWord :: hex where
  "zeroWord = ''0x'' @ replicate 64 CHR ''0''"

text \<open>The unsigned integer a string of hex digits denotes, big-endian.\<close>

definition hexDigitValue :: "char \<Rightarrow> nat" where
  "hexDigitValue c =
     (let n = (of_char c :: nat) in
      if 48 \<le> n \<and> n \<le> 57 then n - 48
      else if 97 \<le> n \<and> n \<le> 102 then n - 87
      else if 65 \<le> n \<and> n \<le> 70 then n - 55
      else 0)"

definition hexValue :: "string \<Rightarrow> nat" where
  "hexValue ds = foldl (\<lambda>acc c. 16 * acc + hexDigitValue c) 0 ds"

section \<open>Session-key validator: data model\<close>

datatype Operation = Call | DelegateCall

datatype ParamOperator =
    EQUAL
  | GREATER_THAN
  | LESS_THAN
  | GREATER_THAN_OR_EQUAL
  | LESS_THAN_OR_EQUAL
  | NOT_EQUAL

record ExecutionRule =
  rule_validAfter :: nat
  interval :: nat
  runs :: nat

record ParamRules =
  offset :: nat
  condition :: ParamOperator
  param :: hex

record Permission =
  target :: hex
  index :: "nat option"
  rules :: "ParamRules list option"
  sig :: "hex option"
  valueLimit :: "int option"
  executionRule :: "ExecutionRule option"
  operation :: "Operation option"

section \<open>Session-key validator: the permission matcher\<close>

definition filterByOperation :: "Permission list \<Rightarrow> Operation \<Rightarrow> Permission list" where
  "filterByOperation permissions op =
     filter (\<lambda>permission. operation permission = Some op \<or> Call = op) permissions"

definition filterBySignature :: "Permission list \<Rightarrow> string \<Rightarrow> Permission list" where
  "filterBySignature permissions signature =
     filter (\<lambda>permission.
        toLowerCase (case sig permission of Some s \<Rightarrow> s | None \<Rightarrow> emptySelector) = signature)
       permissions"

definition getFormattedHex :: "string \<Rightarrow> error + hex" where
  "getFormattedHex v =
     (case pad (if isHex v then v else stringToHex v) 32 of
        Inl e \<Rightarrow> Inl e
      | Inr p \<Rightarrow> Inr (toLowerCase p))"

text \<open>
  The operators compare the two strings as JavaScript does. The \<open>default\<close> branch of
  the switch is not reached by a member of the enum.
\<close>

fun evaluateRuleCondition :: "hex \<Rightarrow> hex \<Rightarrow> ParamOperator \<Rightarrow> bool" where
  "evaluateRuleCondition dataParam ruleParam EQUAL = (dataParam = ruleParam)"
| "evaluateRuleCondition dataParam ruleParam GREATER_THAN = strLess ruleParam dataParam"
| "evaluateRuleCondition dataParam ruleParam LESS_THAN = strLess dataParam ruleParam"
| "evaluateRuleCondition dataParam ruleParam GREATER_THAN_OR_EQUAL =
     (strLess ruleParam dataParam \<or> dataParam = ruleParam)"
| "evaluateRuleCondition dataParam ruleParam LESS_THAN_OR_EQUAL =
     (strLess dataParam ruleParam \<or> dataParam = ruleParam)"
| "evaluateRuleCondition dataParam ruleParam NOT_EQUAL = (dataParam \<noteq> ruleParam)"

text \<open>
  The body of the callback of \<open>permissions.find\<close>: the rules are tried in order, the
  first failing rule ends the loop with \<open>false\<close>, an exception of \<open>pad\<close> leaves it.
\<close>

fun rulesPass :: "ParamRules list \<Rightarrow> string \<Rightarrow> error + bool" where
  "rulesPass [] d = Inr True"
| "rulesPass (rule # rest) d =
     (case getFormattedHex
             (''0x'' @ slice d (10 + offset rule * 2) (10 + offset rule * 2 + 64)) of
        Inl e \<Rightarrow> Inl e
      | Inr dataParam \<Rightarrow>
          (case getFormattedHex (param rule) of
             Inl e \<Rightarrow> Inl e
           | Inr ruleParam \<Rightarrow>
               if \<not> evaluateRuleCondition dataParam ruleParam (condition rule)
               then Inr False
               else rulesPass rest d))"

definition rulesOf :: "Permission \<Rightarrow> ParamRules list" where
  "rulesOf permission = (case rules permission of Some rs \<Rightarrow> rs | None \<Rightarrow> [])"

definition limitOf :: "Permission \<Rightarrow> int" where
  "limitOf permission = (case valueLimit permission of Some v \<Rightarrow> v | None \<Rightarrow> 0)"

fun findPermissionByRule :: "Permission list \<Rightarrow> string \<Rightarrow> error + Permission option" where
  "findPermissionByRule [] d = Inr None"
| "findPermissionByRule (permission # rest) d =
     (case rulesPass (rulesOf permission) d of
        Inl e \<Rightarrow> Inl e
      | Inr True \<Rightarrow> Inr (Some permission)
      | Inr False \<Rightarrow> findPermissionByRule rest d)"

text \<open>
  The callback of \<open>targets.map\<close> in \<open>filterPermissions\<close>, for one
  (target, data, value) triple. \<open>Array.prototype.sort\<close> is stable, and so is
  \<open>sort_key\<close>; the comparator orders by descending \<open>valueLimit\<close>.
\<close>

definition filterPermissionsFor ::
  "Permission list \<Rightarrow> hex \<Rightarrow> hex \<Rightarrow> int \<Rightarrow> error + Permission option" where
  "filterPermissionsFor permissionsList tgt d v =
     (if permissionsList = [] then Inr None
      else
        let targetToMatch = toLowerCase tgt;
            targetPermissions =
              filter (\<lambda>permission.
                  toLowerCase (target permission) = targetToMatch \<or>
                  toLowerCase (target permission) = toLowerCase zeroAddress)
                permissionsList
        in
        if targetPermissions = [] then Inr None
        else
          let operationPermissions = filterByOperation targetPermissions Call in
          if operationPermissions = [] then Inr None
          else
            let signaturePermissions =
                  filterBySignature targetPermissions (toLowerCase (slice d 0 10));
                valueLimitPermissions =
                  filter (\<lambda>permission. limitOf permission \<ge> v) signaturePermissions
            in
            if valueLimitPermissions = [] then Inr None
            else
              let sortedPermissions =
                    sort_key (\<lambda>permission. - limitOf permission) valueLimitPermissions
              in findPermissionByRule sortedPermissions d)"

fun mapE :: "('a \<Rightarrow> error + 'b) \<Rightarrow> 'a list \<Rightarrow> error + 'b list" where
  "mapE f [] = Inr []"
| "mapE f (x # xs) =
     (case f x of
        Inl e \<Rightarrow> Inl e
      | Inr y \<Rightarrow> (case mapE f xs of Inl e \<Rightarrow> Inl e | Inr ys \<Rightarrow> Inr (y # ys)))"

definition filterPermissions ::
  "Permission list \<Rightarrow> hex list \<Rightarrow> hex list \<Rightarrow> int list \<Rightarrow> error + Permission list option" where
  "filterPermissions permissionsList targets dataArray vals =
     (if length targets \<noteq> length dataArray \<or> length targets \<noteq> length vals
      then Inl InvalidArguments
      else
        case mapE (\<lambda>(tgt, d, v). filterPermissionsFor permissionsList tgt d v)
               (zip targets (zip dataArray vals)) of
          Inl e \<Rightarrow> Inl e
        | Inr filteredPermissions \<Rightarrow>
            Inr (if list_all (\<lambda>permission. permission \<noteq> None) filteredPermissions
                 then Some (map the filteredPermissions) else None))"


section \<open>External collaborators\<close>

text \<open>
  The code calls into viem, permissionless, merkletreejs and the chain client. What they
  compute is not part of this repository: each is a field of the environment, and every
  theorem holds for all environments. A call that may throw or reject returns
  \<open>string + 'a\<close>, the message on the left; \<open>ext\<close> turns it into an error of the model.
  The last four fields are constants that the packages declare in files of their own.
\<close>

definition ext :: "string + 'a \<Rightarrow> error + 'a" where
  "ext x = (case x of Inl m \<Rightarrow> Inl (ExternalError m) | Inr y \<Rightarrow> Inr y)"

definition bindE :: "error + 'a \<Rightarrow> ('a \<Rightarrow> error + 'b) \<Rightarrow> error + 'b" where
  "bindE m f = (case m of Inl e \<Rightarrow> Inl e | Inr x \<Rightarrow> f x)"

record UserOperation =
  sender :: hex
  nonce :: nat
  initCode :: hex
  callData :: hex
  callGasLimit :: nat
  verificationGasLimit :: nat
  preVerificationGas :: nat
  maxFeePerGas :: nat
  maxPriorityFeePerGas :: nat
  paymasterAndData :: hex
  signature :: hex

record Signature =
  sig_r :: hex
  sig_s :: hex
  sig_v :: int

text \<open>The calls of the kernel account ABI that the code encodes or decodes.\<close>

datatype FunctionCall =
    ExecuteFn hex int hex nat
  | ExecuteBatchFn "(hex \<times> int \<times> hex) list"
  | ExecuteDelegateCallFn hex hex
  | InitializeFn hex hex
  | CreateAccountFn hex hex nat
  | OtherFn string

datatype permissionArg = OnePermission Permission | ManyPermissions "Permission list"

datatype proofArg = Proof "hex list" | Proofs "hex list list"

datatype proofType = Bytes32Array | Bytes32ArrayArray

text \<open>
  The enum \<open>ValidatorMode\<close> is declared in the core package; its members are 4-byte
  hex strings, which the environment gives as \<open>modeBytes\<close>.
\<close>

datatype ValidatorMode = SudoMode | PluginMode | EnableMode

record Env =
  keccak256 :: "hex \<Rightarrow> hex"
  getFunctionSelector :: "string \<Rightarrow> hex"
  encodeAbiParameters :: "permissionArg \<Rightarrow> (proofType \<times> proofArg) option \<Rightarrow> string + hex"
  decodeFunctionData :: "hex \<Rightarrow> string + FunctionCall"
  encodeFunctionData :: "FunctionCall \<Rightarrow> string + hex"
  getUserOperationHash :: "UserOperation \<Rightarrow> hex \<Rightarrow> nat \<Rightarrow> hex"
  signMessage :: "hex \<Rightarrow> hex \<Rightarrow> string + hex"
  getChainId :: "string + nat"
  readNonces :: "hex \<Rightarrow> hex \<Rightarrow> string + (nat \<times> nat)"
  hexToSignature :: "hex \<Rightarrow> string + Signature"
  signatureToHex :: "Signature \<Rightarrow> string + hex"
  getSenderAddress :: "hex \<Rightarrow> hex \<Rightarrow> string + hex"
  modeBytes :: "ValidatorMode \<Rightarrow> hex"
  SESSION_KEY_VALIDATOR_ADDRESS :: hex
  ECDSA_VALIDATOR_ADDRESS :: hex
  DUMMY_ECDSA_SIG :: hex

section \<open>Merkle tree (merkletreejs)\<close>

text \<open>
  A model of the \<open>MerkleTree\<close> class as this program uses it. Buffers are written as
  lower-case hex strings, so \<open>Buffer.compare\<close> is \<open>strLess\<close>. A layer is paired from
  the left, a last node without a partner moves up unchanged, and the loop stops at a
  layer of at most one node. The option \<open>complete\<close> changes the pairing only in a tree
  with more than one leaf; the only tree built with it here has one leaf.
\<close>

record MerkleTreeOptions =
  hashLeaves :: bool
  sortPairs :: bool
  complete :: bool

record MerkleTree =
  leaves :: "hex list"
  layers :: "hex list list"

definition bufferify :: "hex \<Rightarrow> hex" where
  "bufferify x = toLowerCase x"

definition combinePair :: "bool \<Rightarrow> hex \<Rightarrow> hex \<Rightarrow> hex" where
  "combinePair sp l r =
     (if sp \<and> strLess r l then concatHex [r, l] else concatHex [l, r])"

fun pairLayer :: "(hex \<Rightarrow> hex) \<Rightarrow> bool \<Rightarrow> hex list \<Rightarrow> hex list" where
  "pairLayer H sp [] = []"
| "pairLayer H sp [x] = [x]"
| "pairLayer H sp (l # r # rest) =
     bufferify (H (combinePair sp l r)) # pairLayer H sp rest"

function createHashes :: "(hex \<Rightarrow> hex) \<Rightarrow> bool \<Rightarrow> hex list \<Rightarrow> hex list list" where
  "createHashes H sp nodes =
     (if 1 < length nodes then nodes # createHashes H sp (pairLayer H sp nodes)
      else [nodes])"
  by pat_completeness auto
termination
proof (relation "measure (\<lambda>(H, sp, nodes). length nodes)")
  show "wf (measure (\<lambda>(H, sp, nodes). length nodes))" by simp
next
  fix H :: "hex \<Rightarrow> hex" and sp :: bool and nodes :: "hex list"
  assume long: "1 < length nodes"
  have le: "length (pairLayer H sp ns) \<le> length ns" for ns
    by (induction H sp ns rule: pairLayer.induct) simp_all
  obtain l r rest where nodes: "nodes = l # r # rest"
    using long by (cases nodes; cases "tl nodes") auto
  have "length (pairLayer H sp nodes) < length nodes"
    unfolding nodes using le [of rest] by simp
  then show "((H, sp, pairLayer H sp nodes), (H, sp, nodes))
               \<in> measure (\<lambda>(H, sp, nodes). length nodes)"
    by simp
qed

declare createHashes.simps [simp del]

definition newMerkleTree :: "(hex \<Rightarrow> hex) \<Rightarrow> hex list \<Rightarrow> MerkleTreeOptions \<Rightarrow> MerkleTree" where
  "newMerkleTree H ls options =
     (let hashed = (if hashLeaves options then map H ls else ls);
          nodes = map bufferify hashed
      in \<lparr> leaves = nodes, layers = createHashes H (sortPairs options) nodes \<rparr>)"

definition getHexRoot :: "MerkleTree \<Rightarrow> hex" where
  "getHexRoot tree =
     (case layers tree of
        [] \<Rightarrow> ''0x''
      | _ \<Rightarrow> (case last (layers tree) of [] \<Rightarrow> ''0x'' | root # _ \<Rightarrow> root))"

text \<open>\<open>getProof\<close> takes the last leaf equal to the argument; no such leaf, no proof.\<close>

fun lastIndexOf :: "hex \<Rightarrow> hex list \<Rightarrow> nat \<Rightarrow> nat option \<Rightarrow> nat option" where
  "lastIndexOf leaf [] i found = found"
| "lastIndexOf leaf (x # xs) i found =
     lastIndexOf leaf xs (Suc i) (if x = leaf then Some i else found)"

fun proofOf :: "hex list list \<Rightarrow> nat \<Rightarrow> hex list" where
  "proofOf [] i = []"
| "proofOf (layer # rest) i =
     (let pairIndex = (if i mod 2 = 1 then i - 1 else i + 1) in
      (if pairIndex < length layer then [layer ! pairIndex] else []) @ proofOf rest (i div 2))"

definition getHexProof :: "MerkleTree \<Rightarrow> hex \<Rightarrow> hex list" where
  "getHexProof tree leaf =
     (case lastIndexOf (bufferify leaf) (leaves tree) 0 None of
        None \<Rightarrow> []
      | Some i \<Rightarrow> proofOf (layers tree) i)"


section \<open>Session-key validator: construction\<close>

record SessionKeyData =
  validUntil :: "nat option"
  validAfter :: "nat option"
  paymaster :: "hex option"
  permissions :: "Permission list option"

text \<open>\<open>sessionKey\<close> is the address of the session-key account.\<close>

record SessionKeyValidatorData =
  sessionKey :: hex
  sessionKeyData :: "SessionKeyData option"

record ExecutorData =
  executor :: hex
  selector :: hex
  exec_validUntil :: nat
  exec_validAfter :: nat

text \<open>The arguments of \<open>signerToSessionKeyValidator\<close>; \<open>signer\<close> is the signer's address.\<close>

record SessionKeyValidatorArgs =
  signer :: hex
  entryPoint :: "hex option"
  validatorData :: SessionKeyValidatorData
  validatorAddress :: "hex option"
  executorData :: "ExecutorData option"
  mode :: "ValidatorMode option"

text \<open>What the closures of the returned plugin capture.\<close>

record SessionKeyValidator =
  v_signer :: hex
  v_entryPoint :: hex
  v_validatorAddress :: hex
  v_sessionKey :: hex
  v_sessionKeyData :: SessionKeyData
  v_executorData :: ExecutorData
  v_mode :: ValidatorMode
  v_chainId :: nat
  merkleTree :: MerkleTree

definition ENTRYPOINT_V0_6 :: hex where
  "ENTRYPOINT_V0_6 = ''0x5FF137D4b0FDCD49DcA30c7CF57E578a026d2789''"

definition proofTypeOf :: "proofArg \<Rightarrow> proofType" where
  "proofTypeOf merkleProof =
     (case merkleProof of
        Proofs (first # _) \<Rightarrow> Bytes32ArrayArray
      | _ \<Rightarrow> Bytes32Array)"

definition encodePermissionData ::
  "Env \<Rightarrow> permissionArg \<Rightarrow> proofArg option \<Rightarrow> error + hex" where
  "encodePermissionData env permission merkleProof =
     (case merkleProof of
        Some proof \<Rightarrow> ext (encodeAbiParameters env permission (Some (proofTypeOf proof, proof)))
      | None \<Rightarrow> ext (encodeAbiParameters env permission None))"

text \<open>The callback of \<open>permissions.map\<close> that fills in the defaults and the index.\<close>

definition withDefaults :: "Permission \<Rightarrow> nat \<Rightarrow> Permission" where
  "withDefaults perm i =
     perm \<lparr> valueLimit := Some (case valueLimit perm of Some l \<Rightarrow> l | None \<Rightarrow> 0),
            sig := Some (case sig perm of Some g \<Rightarrow> g | None \<Rightarrow> emptySelector),
            rules := Some (case rules perm of Some rs \<Rightarrow> rs | None \<Rightarrow> []),
            index := Some i,
            executionRule := Some (case executionRule perm of Some x \<Rightarrow> x
                                   | None \<Rightarrow> \<lparr> rule_validAfter = 0, interval = 0, runs = 0 \<rparr>),
            operation := Some (case operation perm of Some x \<Rightarrow> x | None \<Rightarrow> Call) \<rparr>"

definition givenPermissions :: "SessionKeyValidatorArgs \<Rightarrow> Permission list" where
  "givenPermissions args =
     (case sessionKeyData (validatorData args) of
        None \<Rightarrow> []
      | Some skd \<Rightarrow> (case permissions skd of None \<Rightarrow> [] | Some ps \<Rightarrow> ps))"

definition normalisedPermissions :: "SessionKeyValidatorArgs \<Rightarrow> Permission list" where
  "normalisedPermissions args =
     map (\<lambda>(perm, i). withDefaults perm i)
       (zip (givenPermissions args) [0 ..< length (givenPermissions args)])"

definition normalisedSessionKeyData :: "SessionKeyValidatorArgs \<Rightarrow> SessionKeyData" where
  "normalisedSessionKeyData args =
     (let given = sessionKeyData (validatorData args) in
      \<lparr> validUntil = Some (case given of Some skd \<Rightarrow>
                              (case validUntil skd of Some x \<Rightarrow> x | None \<Rightarrow> 0) | None \<Rightarrow> 0),
        validAfter = Some (case given of Some skd \<Rightarrow>
                              (case validAfter skd of Some x \<Rightarrow> x | None \<Rightarrow> 0) | None \<Rightarrow> 0),
        paymaster = Some (case given of Some skd \<Rightarrow>
                              (case paymaster skd of Some x \<Rightarrow> x | None \<Rightarrow> zeroAddress)
                          | None \<Rightarrow> zeroAddress),
        permissions = Some (normalisedPermissions args) \<rparr>)"

definition permissionsOf :: "SessionKeyData \<Rightarrow> Permission list" where
  "permissionsOf skd = (case permissions skd of Some ps \<Rightarrow> ps | None \<Rightarrow> [])"

definition signerToSessionKeyValidator ::
  "Env \<Rightarrow> SessionKeyValidatorArgs \<Rightarrow> error + SessionKeyValidator" where
  "signerToSessionKeyValidator env args =
     (let executorData' =
            (case executorData args of
               Some x \<Rightarrow> x
             | None \<Rightarrow> \<lparr> executor = zeroAddress,
                         selector = getFunctionSelector env
                                      ''execute(address, uint256, bytes, uint8)'',
                         exec_validUntil = 0, exec_validAfter = 0 \<rparr>);
          skd = normalisedSessionKeyData args
      in
      bindE (ext (getChainId env)) (\<lambda>chainId.
      bindE (mapE (\<lambda>permission. encodePermissionData env (OnePermission permission) None)
               (permissionsOf skd)) (\<lambda>encoded.
      let encodedPermissionData =
            (if length encoded = 1 then encoded @ [encoded ! 0] else encoded);
          tree =
            (if permissionsOf skd \<noteq> []
             then newMerkleTree (keccak256 env) encodedPermissionData
                    \<lparr> hashLeaves = True, sortPairs = True, complete = False \<rparr>
             else newMerkleTree (keccak256 env) [zeroWord]
                    \<lparr> hashLeaves = False, sortPairs = False, complete = True \<rparr>)
      in
      Inr \<lparr> v_signer = signer args,
            v_entryPoint = (case entryPoint args of Some x \<Rightarrow> x | None \<Rightarrow> ENTRYPOINT_V0_6),
            v_validatorAddress =
              (case validatorAddress args of Some x \<Rightarrow> x
               | None \<Rightarrow> SESSION_KEY_VALIDATOR_ADDRESS env),
            v_sessionKey = sessionKey (validatorData args),
            v_sessionKeyData = skd,
            v_executorData = executorData',
            v_mode = (case mode args of Some x \<Rightarrow> x | None \<Rightarrow> EnableMode),
            v_chainId = chainId,
            merkleTree = tree \<rparr>)))"

section \<open>Session-key validator: matching a call and building the proof\<close>

datatype matching = Undefined | Single Permission | Batch "Permission list"

definition findMatchingPermissions :: "Env \<Rightarrow> SessionKeyValidator \<Rightarrow> hex \<Rightarrow> matching" where
  "findMatchingPermissions env v cd =
     (case decodeFunctionData env cd of
        Inl m \<Rightarrow> Undefined
      | Inr (ExecuteFn to val d opn) \<Rightarrow>
          (case filterPermissions (permissionsOf (v_sessionKeyData v)) [to] [d] [val] of
             Inr (Some (permission # _)) \<Rightarrow> Single permission
           | _ \<Rightarrow> Undefined)
      | Inr (ExecuteBatchFn calls) \<Rightarrow>
          (case filterPermissions (permissionsOf (v_sessionKeyData v))
                  (map (\<lambda>(to, val, d). to) calls)
                  (map (\<lambda>(to, val, d). d) calls)
                  (map (\<lambda>(to, val, d). val) calls) of
             Inr (Some found) \<Rightarrow> Batch found
           | _ \<Rightarrow> Undefined)
      | Inr _ \<Rightarrow> Undefined)"

definition asPermissionArg :: "matching \<Rightarrow> permissionArg option" where
  "asPermissionArg m =
     (case m of
        Undefined \<Rightarrow> None
      | Single permission \<Rightarrow> Some (OnePermission permission)
      | Batch found \<Rightarrow> Some (ManyPermissions found))"

definition getEncodedPermissionProofData ::
  "Env \<Rightarrow> SessionKeyValidator \<Rightarrow> hex \<Rightarrow> error + hex" where
  "getEncodedPermissionProofData env v cd =
     (let matchingPermission = findMatchingPermissions env v cd in
      if matchingPermission = Undefined \<and> \<not> (getHexRoot (merkleTree v) = zeroWord)
      then Inl NoMatchingPermission
      else
        case (if permissionsOf (v_sessionKeyData v) \<noteq> [] then asPermissionArg matchingPermission
              else None) of
          None \<Rightarrow>
            (case matchingPermission of
               Batch found \<Rightarrow>
                 bindE (mapE (\<lambda>permission.
                          encodePermissionData env (OnePermission permission) None) found)
                   (\<lambda>encodedPerms. Inr ''0x'')
             | _ \<Rightarrow> Inr ''0x'')
        | Some arg \<Rightarrow>
            bindE (encodePermissionData env arg None) (\<lambda>encodedPermissionData.
            bindE (case matchingPermission of
                     Batch found \<Rightarrow>
                       bindE (mapE (\<lambda>permission.
                                encodePermissionData env (OnePermission permission) None) found)
                         (\<lambda>encodedPerms.
                            Inr (Proofs (map (\<lambda>perm. getHexProof (merkleTree v)
                                                        (keccak256 env perm)) encodedPerms)))
                   | _ \<Rightarrow> Inr (Proof (getHexProof (merkleTree v)
                                         (keccak256 env encodedPermissionData))))
              (\<lambda>merkleProof. encodePermissionData env arg (Some merkleProof))))"


section \<open>Session-key validator: signing\<close>

definition getSessionNonces ::
  "Env \<Rightarrow> SessionKeyValidator \<Rightarrow> hex \<Rightarrow> error + (nat \<times> nat)" where
  "getSessionNonces env v kernelAccountAddress =
     ext (readNonces env (v_validatorAddress v) kernelAccountAddress)"

definition getEnableData :: "Env \<Rightarrow> SessionKeyValidator \<Rightarrow> hex option \<Rightarrow> error + hex" where
  "getEnableData env v kernelAccountAddress =
     (case kernelAccountAddress of
        None \<Rightarrow> Inl KernelAccountAddressNotProvided
      | Some account \<Rightarrow>
          if account = [] then Inl KernelAccountAddressNotProvided
          else
            bindE (getSessionNonces env v account) (\<lambda>(lastNonce0, invalidNonce).
            let lastNonce = lastNonce0 + 1 in
            bindE (pad (getHexRoot (merkleTree v)) 32) (\<lambda>root.
            bindE (bindE (toHexNumber (case validAfter (v_sessionKeyData v) of
                                         Some x \<Rightarrow> x | None \<Rightarrow> 0))
                     (\<lambda>h. pad h 6)) (\<lambda>after.
            bindE (bindE (toHexNumber (case validUntil (v_sessionKeyData v) of
                                         Some x \<Rightarrow> x | None \<Rightarrow> 0))
                     (\<lambda>h. pad h 6)) (\<lambda>until.
            bindE (pad (numberToHex lastNonce) 32) (\<lambda>paddedNonce.
            Inr (concatHex
                   [v_sessionKey v, root, after, until,
                    (case paymaster (v_sessionKeyData v) of
                       Some x \<Rightarrow> x | None \<Rightarrow> zeroAddress),
                    paddedNonce])))))))"

text \<open>
  \<open>toHex(x.length / 2 - 1)\<close>: the quotient is a JavaScript number, and \<open>toHex\<close>
  throws on a number that is not an integer or is negative.
\<close>

definition byteLengthHex :: "hex \<Rightarrow> error + hex" where
  "byteLengthHex x =
     (if length x mod 2 = 1 then Inl NotAnInteger
      else if length x < 2 then Inl IntegerOutOfRange
      else toHexNumber (length x div 2 - 1))"

definition getValidatorSignature ::
  "Env \<Rightarrow> SessionKeyValidator \<Rightarrow> hex \<Rightarrow> hex option \<Rightarrow> error + hex" where
  "getValidatorSignature env v accountAddress pluginEnableSignature =
     (if v_mode v = SudoMode \<or> v_mode v = PluginMode then Inr (modeBytes env (v_mode v))
      else
        bindE (getEnableData env v (Some accountAddress)) (\<lambda>enableData.
        case pluginEnableSignature of
          None \<Rightarrow> Inl EnableSignatureNotSet
        | Some enableSignature \<Rightarrow>
            if enableSignature = [] then Inl EnableSignatureNotSet
            else
              bindE (bindE (toHexNumber (exec_validUntil (v_executorData v)))
                       (\<lambda>h. pad h 6)) (\<lambda>until.
              bindE (bindE (toHexNumber (exec_validAfter (v_executorData v)))
                       (\<lambda>h. pad h 6)) (\<lambda>after.
              bindE (pad (v_validatorAddress v) 20) (\<lambda>validator.
              bindE (pad (executor (v_executorData v)) 20) (\<lambda>exec.
              bindE (bindE (byteLengthHex enableData) (\<lambda>n. pad n 32)) (\<lambda>enableDataLength.
              bindE (bindE (byteLengthHex enableSignature) (\<lambda>n. pad n 32)) (\<lambda>signatureLength.
              Inr (concatHex
                     [modeBytes env (v_mode v), until, after, validator, exec,
                      enableDataLength, enableData, signatureLength, enableSignature])))))))))"

definition fixSignedData :: "Env \<Rightarrow> string \<Rightarrow> error + hex" where
  "fixSignedData env sg =
     (if \<not> isHex sg \<and> \<not> isHex (''0x'' @ sg) then Inl (InvalidSignedData sg)
      else
        let signature = (if \<not> isHex sg then ''0x'' @ sg else sg) in
        bindE (ext (hexToSignature env signature)) (\<lambda>parsed.
        let v' = (if sig_v parsed = 0 \<or> sig_v parsed = 1 then sig_v parsed + 27
                  else sig_v parsed)
        in ext (signatureToHex env (parsed \<lparr> sig_v := v' \<rparr>))))"

text \<open>
  The steps of \<open>signUserOperation\<close> that come before the permission proof: the
  signature over the hash, its normalisation, and the validator-mode header.
\<close>

definition signingPrefix ::
  "Env \<Rightarrow> SessionKeyValidator \<Rightarrow> UserOperation \<Rightarrow> hex option \<Rightarrow> error + (hex \<times> hex)" where
  "signingPrefix env v userOperation pluginEnableSignature =
     (let userOpHash = getUserOperationHash env (userOperation \<lparr> signature := ''0x'' \<rparr>)
                         (v_entryPoint v) (v_chainId v)
      in
      bindE (ext (signMessage env (v_signer v) userOpHash)) (\<lambda>sg.
      bindE (fixSignedData env sg) (\<lambda>fixedSignature.
      bindE (getValidatorSignature env v (sender userOperation) pluginEnableSignature)
        (\<lambda>validatorSignature. Inr (validatorSignature, fixedSignature)))))"

definition sessionKey_signUserOperation ::
  "Env \<Rightarrow> SessionKeyValidator \<Rightarrow> UserOperation \<Rightarrow> hex option \<Rightarrow> error + hex" where
  "sessionKey_signUserOperation env v userOperation pluginEnableSignature =
     (let userOpHash = getUserOperationHash env (userOperation \<lparr> signature := ''0x'' \<rparr>)
                         (v_entryPoint v) (v_chainId v)
      in
      bindE (ext (signMessage env (v_signer v) userOpHash)) (\<lambda>sg.
      bindE (fixSignedData env sg) (\<lambda>fixedSignature.
      bindE (getValidatorSignature env v (sender userOperation) pluginEnableSignature)
        (\<lambda>validatorSignature.
      bindE (getEncodedPermissionProofData env v (callData userOperation)) (\<lambda>proofData.
      Inr (concatHex [validatorSignature, v_sessionKey v, fixedSignature, proofData]))))))"

definition sessionKey_getDummySignature ::
  "Env \<Rightarrow> SessionKeyValidator \<Rightarrow> UserOperation \<Rightarrow> hex option \<Rightarrow> error + hex" where
  "sessionKey_getDummySignature env v userOperation pluginEnableSignature =
     bindE (getValidatorSignature env v (sender userOperation) pluginEnableSignature)
       (\<lambda>validatorSignature.
     bindE (getEncodedPermissionProofData env v (callData userOperation)) (\<lambda>proofData.
     Inr (concatHex [validatorSignature, v_sessionKey v, DUMMY_ECDSA_SIG env, proofData])))"

definition getExecutorData :: "SessionKeyValidator \<Rightarrow> error + ExecutorData" where
  "getExecutorData v =
     (if selector (v_executorData v) = [] \<or> executor (v_executorData v) = []
      then Inl InvalidExecutorData
      else Inr (v_executorData v))"

section \<open>ECDSA validator\<close>

text \<open>\<open>chain\<close> is the id of the client's chain, when the client has one.\<close>

record Client =
  chain :: "nat option"

record EcdsaValidatorArgs =
  e_signer :: hex
  e_entryPoint :: "hex option"
  e_validatorAddress :: "hex option"

record EcdsaValidator =
  viemSigner :: hex
  ecdsa_entryPoint :: hex
  ecdsa_address :: hex
  ecdsa_chainId :: nat

definition signerToEcdsaValidator ::
  "Env \<Rightarrow> Client \<Rightarrow> EcdsaValidatorArgs \<Rightarrow> error + EcdsaValidator" where
  "signerToEcdsaValidator env client args =
     (case chain client of
        None \<Rightarrow> Inl ChainNotFound
      | Some chainId \<Rightarrow>
          Inr \<lparr> viemSigner = e_signer args,
                ecdsa_entryPoint =
                  (case e_entryPoint args of Some x \<Rightarrow> x | None \<Rightarrow> ENTRYPOINT_V0_6),
                ecdsa_address =
                  (case e_validatorAddress args of
                     Some x \<Rightarrow> x | None \<Rightarrow> ECDSA_VALIDATOR_ADDRESS env),
                ecdsa_chainId = chainId \<rparr>)"

definition ecdsa_getEnableData :: "EcdsaValidator \<Rightarrow> error + hex" where
  "ecdsa_getEnableData v = Inr (viemSigner v)"

definition ecdsa_signUserOperation ::
  "Env \<Rightarrow> EcdsaValidator \<Rightarrow> UserOperation \<Rightarrow> error + hex" where
  "ecdsa_signUserOperation env v userOperation =
     (let hash = getUserOperationHash env (userOperation \<lparr> signature := ''0x'' \<rparr>)
                   (ecdsa_entryPoint v) (ecdsa_chainId v)
      in
      bindE (ext (signMessage env (viemSigner v) hash)) (\<lambda>sg.
      Inr (concatHex [''0x00000000'', sg])))"

definition ecdsa_getDummySignature :: hex where
  "ecdsa_getDummySignature =
     ''0x00000000fffffffffffffffffffffffffffffff0000000000000000000000000000000007aaaaaaaaaaaaaaaaaaaaaaaaaaaaaaaaaaaaaaaaaaaaaaaaaaaaaaaaaaaaaaa1c''"


section \<open>The plugin interface and the kernel account\<close>

text \<open>
  A validator plugin is an object of closures. \<open>getPluginApproveSignature\<close> takes a
  plugin as its argument, so the record is built in two steps; the ECDSA validator
  object has no such member, hence the option.
\<close>

record KernelPluginBase =
  plugin_address :: hex
  plugin_signer :: hex
  plugin_source :: string
  plugin_getEnableData :: "hex option \<Rightarrow> error + hex"
  plugin_signUserOperation :: "UserOperation \<Rightarrow> hex option \<Rightarrow> error + hex"
  plugin_getDummySignature :: "UserOperation \<Rightarrow> hex option \<Rightarrow> error + hex"

record KernelPlugin = KernelPluginBase +
  plugin_getPluginApproveSignature :: "(hex \<Rightarrow> KernelPluginBase \<Rightarrow> error + hex) option"

definition sessionKey_getPluginApproveSignature :: "hex \<Rightarrow> KernelPluginBase \<Rightarrow> error + hex" where
  "sessionKey_getPluginApproveSignature accountAddress pl = Inl NotImplemented"

definition sessionKeyPlugin :: "Env \<Rightarrow> SessionKeyValidator \<Rightarrow> KernelPlugin" where
  "sessionKeyPlugin env v =
     \<lparr> plugin_address = v_validatorAddress v,
       plugin_signer = v_signer v,
       plugin_source = ''SessionKeyValidator'',
       plugin_getEnableData = getEnableData env v,
       plugin_signUserOperation = sessionKey_signUserOperation env v,
       plugin_getDummySignature = sessionKey_getDummySignature env v,
       plugin_getPluginApproveSignature = Some sessionKey_getPluginApproveSignature \<rparr>"

definition ecdsaPlugin :: "Env \<Rightarrow> EcdsaValidator \<Rightarrow> KernelPlugin" where
  "ecdsaPlugin env v =
     \<lparr> plugin_address = ecdsa_address v,
       plugin_signer = viemSigner v,
       plugin_source = ''ECDSAValidator'',
       plugin_getEnableData = (\<lambda>kernelAccountAddress. ecdsa_getEnableData v),
       plugin_signUserOperation =
         (\<lambda>userOperation pluginEnableSignature. ecdsa_signUserOperation env v userOperation),
       plugin_getDummySignature =
         (\<lambda>userOperation pluginEnableSignature. Inr ecdsa_getDummySignature),
       plugin_getPluginApproveSignature = None \<rparr>"

definition FACTORY_ADDRESS :: hex where
  "FACTORY_ADDRESS = ''0x5de4839a76cf55d0c90e2061ef4386d962E15ae3''"

definition ACCOUNT_V2_3_LOGIC :: hex where
  "ACCOUNT_V2_3_LOGIC = ''0xD3F582F6B4814E989Ee8E96bc3175320B5A540ab''"

record KernelAccountArgs =
  defaultValidator :: KernelPlugin
  plugin :: "KernelPlugin option"
  k_entryPoint :: "hex option"
  k_index :: "nat option"
  factoryAddress :: "hex option"
  accountLogicAddress :: "hex option"
  deployedAccountAddress :: "hex option"

record KernelSmartAccount =
  accountAddress :: hex
  account_entryPoint :: hex
  account_defaultValidator :: KernelPlugin
  account_plugin :: "KernelPlugin option"
  account_index :: nat
  account_factoryAddress :: hex
  account_accountLogicAddress :: hex

definition getAccountInitCode ::
  "Env \<Rightarrow> hex \<Rightarrow> nat \<Rightarrow> hex \<Rightarrow> hex \<Rightarrow> hex \<Rightarrow> error + hex \<Rightarrow> error + hex" where
  "getAccountInitCode env owner idx factory logic validator enableData =
     (if owner = [] then Inl OwnerAccountNotFound
      else
        bindE enableData (\<lambda>enable.
        bindE (ext (encodeFunctionData env (InitializeFn validator enable)))
          (\<lambda>initialisationData.
        bindE (ext (encodeFunctionData env (CreateAccountFn logic initialisationData idx)))
          (\<lambda>createCall. Inr (concatHex [factory, createCall])))))"

definition generateInitCode :: "Env \<Rightarrow> KernelPlugin \<Rightarrow> nat \<Rightarrow> hex \<Rightarrow> hex \<Rightarrow> error + hex" where
  "generateInitCode env dv idx factory logic =
     getAccountInitCode env (plugin_signer dv) idx factory logic (plugin_address dv)
       (plugin_getEnableData dv None)"

definition getAccountAddress :: "Env \<Rightarrow> hex \<Rightarrow> error + hex \<Rightarrow> error + hex" where
  "getAccountAddress env ep initCodeProvider =
     bindE initCodeProvider (\<lambda>code. ext (getSenderAddress env code ep))"

definition createKernelAccount :: "Env \<Rightarrow> KernelAccountArgs \<Rightarrow> error + KernelSmartAccount" where
  "createKernelAccount env args =
     (let ep = (case k_entryPoint args of Some x \<Rightarrow> x | None \<Rightarrow> ENTRYPOINT_V0_6);
          idx = (case k_index args of Some x \<Rightarrow> x | None \<Rightarrow> 0);
          factory = (case factoryAddress args of Some x \<Rightarrow> x | None \<Rightarrow> FACTORY_ADDRESS);
          logic = (case accountLogicAddress args of Some x \<Rightarrow> x | None \<Rightarrow> ACCOUNT_V2_3_LOGIC)
      in
      bindE (case deployedAccountAddress args of
               Some a \<Rightarrow> Inr a
             | None \<Rightarrow> getAccountAddress env ep
                         (generateInitCode env (defaultValidator args) idx factory logic))
        (\<lambda>address.
           if address = [] then Inl AccountAddressNotFound
           else Inr \<lparr> accountAddress = address,
                      account_entryPoint = ep,
                      account_defaultValidator = defaultValidator args,
                      account_plugin = plugin args,
                      account_index = idx,
                      account_factoryAddress = factory,
                      account_accountLogicAddress = logic \<rparr>))"

definition currentValidator :: "KernelSmartAccount \<Rightarrow> KernelPlugin" where
  "currentValidator account =
     (case account_plugin account of Some pl \<Rightarrow> pl | None \<Rightarrow> account_defaultValidator account)"

text \<open>The approve signature is asked of the default validator when a plugin is set.\<close>

definition pluginApproval :: "KernelSmartAccount \<Rightarrow> error + hex option" where
  "pluginApproval account =
     (case account_plugin account of
        None \<Rightarrow> Inr None
      | Some pl \<Rightarrow>
          (case plugin_getPluginApproveSignature (account_defaultValidator account) of
             None \<Rightarrow> Inl NotAFunction
           | Some approve \<Rightarrow>
               bindE (approve (accountAddress account) (KernelPluginBase.truncate pl))
                 (\<lambda>approval. Inr (Some approval))))"

definition kernel_signUserOperation :: "KernelSmartAccount \<Rightarrow> UserOperation \<Rightarrow> error + hex" where
  "kernel_signUserOperation account userOperation =
     bindE (pluginApproval account) (\<lambda>pluginEnableSignature.
       plugin_signUserOperation (currentValidator account) userOperation pluginEnableSignature)"

definition kernel_getDummySignature :: "KernelSmartAccount \<Rightarrow> UserOperation \<Rightarrow> error + hex" where
  "kernel_getDummySignature account userOperation =
     bindE (pluginApproval account) (\<lambda>pluginEnableSignature.
       plugin_getDummySignature (currentValidator account) userOperation pluginEnableSignature)"

definition kernel_signTransaction :: "KernelSmartAccount \<Rightarrow> error + hex" where
  "kernel_signTransaction account = Inl SignTransactionNotSupportedBySmartAccount"

text \<open>
  Modelled from the spec: the type \<open>CallType\<close> is exported by the package index, but
  no given source file declares it, and \<open>createKernelAccount.ts\<close> reads no such field.
  The spec speaks of a single request that asks for a delegate call as distinct from a
  normal call, and the test suite passes \<open>callType: "delegatecall"\<close> with a single
  transaction. A transaction is the argument of \<open>encodeCallData\<close> with that optional
  field, which the body of \<open>encodeCallData\<close> below, as the source, never looks at.
\<close>

datatype CallType = call | delegatecall

record Tx =
  tx_to :: hex
  tx_value :: int
  tx_data :: hex
  callType :: "CallType option"

datatype TxArg = OneTx Tx | ManyTx "Tx list"

definition encodeCallData :: "Env \<Rightarrow> TxArg \<Rightarrow> error + hex" where
  "encodeCallData env arg =
     (case arg of
        ManyTx txs \<Rightarrow>
          ext (encodeFunctionData env
                 (ExecuteBatchFn (map (\<lambda>tx. (tx_to tx, tx_value tx, tx_data tx)) txs)))
      | OneTx tx \<Rightarrow>
          ext (encodeFunctionData env (ExecuteFn (tx_to tx) (tx_value tx) (tx_data tx) 0)))"

section \<open>Reading the rules as integer comparisons\<close>

text \<open>
  What a rule says in terms of numbers: the word of the call data at the rule's offset
  and the rule's parameter, both read as big-endian unsigned integers, compared by the
  rule's operator.
\<close>

fun compareUint :: "ParamOperator \<Rightarrow> nat \<Rightarrow> nat \<Rightarrow> bool" where
  "compareUint EQUAL a b = (a = b)"
| "compareUint GREATER_THAN a b = (a > b)"
| "compareUint LESS_THAN a b = (a < b)"
| "compareUint GREATER_THAN_OR_EQUAL a b = (a \<ge> b)"
| "compareUint LESS_THAN_OR_EQUAL a b = (a \<le> b)"
| "compareUint NOT_EQUAL a b = (a \<noteq> b)"

definition wordAt :: "hex \<Rightarrow> nat \<Rightarrow> nat" where
  "wordAt d off = hexValue (slice d (10 + off * 2) (10 + off * 2 + 64))"

definition ruleHolds :: "hex \<Rightarrow> ParamRules \<Rightarrow> bool" where
  "ruleHolds d r = compareUint (condition r) (wordAt d (offset r)) (hexValue (drop 2 (param r)))"

definition wellFormedRule :: "ParamRules \<Rightarrow> bool" where
  "wellFormedRule r = (isHex (param r) \<and> length (param r) \<le> 66)"

definition lowHexCode :: "nat \<Rightarrow> bool" where
  "lowHexCode n = ((48 \<le> n \<and> n \<le> 57) \<or> (97 \<le> n \<and> n \<le> 102))"

definition hexCode :: "nat \<Rightarrow> bool" where
  "hexCode n = (lowHexCode n \<or> (65 \<le> n \<and> n \<le> 70))"

definition word64 :: "string \<Rightarrow> string" where
  "word64 w = replicate (64 - length w) CHR ''0'' @ toLowerCase w"


section \<open>Auxiliary notions for the statements\<close>

definition sigOf :: "Permission \<Rightarrow> hex" where
  "sigOf permission = (case sig permission of Some g \<Rightarrow> g | None \<Rightarrow> emptySelector)"

text \<open>A permission with its operation tag erased.\<close>

definition untag :: "Permission \<Rightarrow> Permission" where
  "untag permission = permission \<lparr> operation := None \<rparr>"

fun untagMatching :: "matching \<Rightarrow> matching" where
  "untagMatching Undefined = Undefined"
| "untagMatching (Single permission) = Single (untag permission)"
| "untagMatching (Batch found) = Batch (map untag found)"

text \<open>The shape of a 32-byte hex value: \<open>0x\<close> and 64 further characters.\<close>

definition wordShaped :: "hex \<Rightarrow> bool" where
  "wordShaped x = (take 2 x = ''0x'' \<and> length x = 66)"

text \<open>
  Notions for comparing two validators whose permissions differ in their operation tags
  only: an argument of the encoder with the tags erased, an argument all of whose
  permissions carry a tag (as every permission does once the defaults are filled in),
  two Merkle proofs of the same type and length that hold 32-byte words, and two argument
  records of \<open>signerToSessionKeyValidator\<close> that agree on everything but the
  permission list.
\<close>

definition untagArg :: "permissionArg \<Rightarrow> permissionArg" where
  "untagArg a =
     (case a of
        OnePermission p \<Rightarrow> OnePermission (untag p)
      | ManyPermissions ps \<Rightarrow> ManyPermissions (map untag ps))"

definition taggedArg :: "permissionArg \<Rightarrow> bool" where
  "taggedArg a =
     (case a of
        OnePermission p \<Rightarrow> operation p \<noteq> None
      | ManyPermissions ps \<Rightarrow> list_all (\<lambda>p. operation p \<noteq> None) ps)"

definition proofsAlike ::
  "(proofType \<times> proofArg) option \<Rightarrow> (proofType \<times> proofArg) option \<Rightarrow> bool" where
  "proofsAlike x y =
     (case (x, y) of
        (None, None) \<Rightarrow> True
      | (Some (t, Proof xs), Some (t', Proof ys)) \<Rightarrow>
          t = t' \<and> list_all wordShaped xs \<and> list_all wordShaped ys
      | (Some (t, Proofs xss), Some (t', Proofs yss)) \<Rightarrow>
          t = t' \<and> length xss = length yss
          \<and> list_all (list_all wordShaped) xss \<and> list_all (list_all wordShaped) yss
      | _ \<Rightarrow> False)"

definition sameButPermissions :: "SessionKeyValidatorArgs \<Rightarrow> SessionKeyValidatorArgs \<Rightarrow> bool" where
  "sameButPermissions a b =
     (signer a = signer b \<and> entryPoint a = entryPoint b
      \<and> validatorAddress a = validatorAddress b \<and> executorData a = executorData b
      \<and> mode a = mode b \<and> sessionKey (validatorData a) = sessionKey (validatorData b)
      \<and> validUntil (normalisedSessionKeyData a) = validUntil (normalisedSessionKeyData b)
      \<and> validAfter (normalisedSessionKeyData a) = validAfter (normalisedSessionKeyData b)
      \<and> paymaster (normalisedSessionKeyData a) = paymaster (normalisedSessionKeyData b))"

text \<open>The candidates of one call: target, selector and value limit, in list order.\<close>

definition candidates :: "Permission list \<Rightarrow> hex \<Rightarrow> hex \<Rightarrow> int \<Rightarrow> Permission list" where
  "candidates ps tgt d val =
     filter (\<lambda>p. (toLowerCase (target p) = toLowerCase tgt \<or>
                  toLowerCase (target p) = toLowerCase zeroAddress) \<and>
                 toLowerCase (sigOf p) = toLowerCase (slice d 0 10) \<and>
                 val \<le> limitOf p) ps"

text \<open>No call of the list finds a permission: the matcher returns nothing or throws.\<close>

definition unmatched :: "Permission list \<Rightarrow> hex \<times> int \<times> hex \<Rightarrow> bool" where
  "unmatched ps c =
     (case c of (to, val, d) \<Rightarrow>
        (case filterPermissionsFor ps to d val of Inr (Some p) \<Rightarrow> False | _ \<Rightarrow> True))"

section \<open>A concrete environment\<close>

text \<open>
  Stand-ins for the libraries and the chain, to run the model on concrete inputs. The
  hash keeps the first 31 bytes of its input and ends in the byte 01, the encoders
  concatenate their fields, the
  signature parser cuts a 65-byte signature into \<open>r\<close>, \<open>s\<close> and \<open>v\<close>.
\<close>

definition sampleHash :: "hex \<Rightarrow> hex" where
  "sampleHash x =
     ''0x'' @ take 62 (replace0x (toLowerCase x) @ replicate 62 CHR ''f'') @ ''01''"

definition sampleEncodeOne :: "Permission \<Rightarrow> hex" where
  "sampleEncodeOne p =
     concatHex [numberToHex (case index p of Some i \<Rightarrow> i | None \<Rightarrow> 0), target p, sigOf p,
                numberToHex (case operation p of Some DelegateCall \<Rightarrow> 1 | _ \<Rightarrow> 0)]"

definition sampleEncode :: "permissionArg \<Rightarrow> (proofType \<times> proofArg) option \<Rightarrow> string + hex" where
  "sampleEncode arg merkleProof =
     Inr (concatHex
            ((case arg of OnePermission p \<Rightarrow> [sampleEncodeOne p]
              | ManyPermissions ps \<Rightarrow> map sampleEncodeOne ps) @
             (case merkleProof of None \<Rightarrow> []
              | Some (t, Proof xs) \<Rightarrow> xs
              | Some (t, Proofs xss) \<Rightarrow> concat xss)))"

definition sampleEncodeFunctionData :: "FunctionCall \<Rightarrow> string + hex" where
  "sampleEncodeFunctionData c =
     (case c of
        ExecuteFn to val d opn \<Rightarrow>
          Inr (concatHex [''0x51945447'', to, numberToHex (nat val), d, numberToHex opn])
      | ExecuteBatchFn calls \<Rightarrow>
          Inr (concatHex (''0x34fcd5be'' #
                 concat (map (\<lambda>(to, val, d). [to, numberToHex (nat val), d]) calls)))
      | ExecuteDelegateCallFn to d \<Rightarrow> Inr (concatHex [''0x5f0d4e62'', to, d])
      | InitializeFn validator enable \<Rightarrow> Inr (concatHex [''0xd1f57894'', validator, enable])
      | CreateAccountFn logic d idx \<Rightarrow> Inr (concatHex [''0x296601cd'', logic, d, numberToHex idx])
      | OtherFn name \<Rightarrow> Inl ''unknown function'')"

definition viem_hexToSignature :: "hex \<Rightarrow> string + Signature" where
  "viem_hexToSignature h =
     (if length h < 132 \<or> \<not> isHex h then Inl ''invalid signature''
      else Inr \<lparr> sig_r = ''0x'' @ toLowerCase (slice h 2 66),
                 sig_s = ''0x'' @ toLowerCase (slice h 66 130),
                 sig_v = int (hexValue (slice h 130 (length h))) \<rparr>)"

definition viem_signatureToHex :: "Signature \<Rightarrow> string + hex" where
  "viem_signatureToHex sg =
     (if sig_v sg < 0 then Inl ''negative recovery id''
      else Inr (''0x'' @ drop 2 (sig_r sg) @ drop 2 (sig_s sg) @ toString16 (nat (sig_v sg))))"

definition sampleEnv :: Env where
  "sampleEnv =
     \<lparr> keccak256 = sampleHash,
       getFunctionSelector = (\<lambda>name. take 10 (sampleHash (stringToHex name))),
       encodeAbiParameters = sampleEncode,
       decodeFunctionData = (\<lambda>cd. Inl ''unknown function''),
       encodeFunctionData = sampleEncodeFunctionData,
       getUserOperationHash =
         (\<lambda>userOperation ep chainId.
            sampleHash (concatHex [sender userOperation, callData userOperation,
                                   signature userOperation])),
       signMessage = (\<lambda>account hash. Inr (concatHex [hash, hash, ''0x00''])),
       getChainId = Inr 80001,
       readNonces = (\<lambda>validator account. Inr (0, 0)),
       hexToSignature = viem_hexToSignature,
       signatureToHex = viem_signatureToHex,
       getSenderAddress = (\<lambda>code ep. Inr (take 42 (sampleHash code))),
       modeBytes = (\<lambda>m. case m of SudoMode \<Rightarrow> ''0x00000000''
                         | PluginMode \<Rightarrow> ''0x00000001''
                         | EnableMode \<Rightarrow> ''0x00000002''),
       SESSION_KEY_VALIDATOR_ADDRESS = ''0x5c97ab153ad9b8bd1169e0c5f32eb3f5b0ab1d4c'',
       ECDSA_VALIDATOR_ADDRESS = ''0xd9ab5096a832b9ce79914329daee236f8eea0390'',
       DUMMY_ECDSA_SIG =
         ''0x'' @ replicate 64 CHR ''f'' @ replicate 64 CHR ''7'' @ ''1c'' \<rparr>"

definition addressA :: hex where
  "addressA = ''0x00000000000000000000000000000000000000aa''"

definition sampleSigner :: hex where
  "sampleSigner = ''0x5ff137d4b0fdcd49dca30c7cf57e578a026d2789''"

definition sampleUserOperation :: "hex \<Rightarrow> UserOperation" where
  "sampleUserOperation cd =
     \<lparr> sender = ''0x00000000000000000000000000000000000000cc'', nonce = 0,
       initCode = ''0x'', callData = cd, callGasLimit = 0, verificationGasLimit = 0,
       preVerificationGas = 0, maxFeePerGas = 0, maxPriorityFeePerGas = 0,
       paymasterAndData = ''0x'', signature = ''0x'' \<rparr>"

definition samplePermission :: "hex \<Rightarrow> hex option \<Rightarrow> int option \<Rightarrow> Permission" where
  "samplePermission tgt g limit =
     \<lparr> target = tgt, index = None, rules = None, sig = g, valueLimit = limit,
       executionRule = None, operation = None \<rparr>"

definition sampleArgs :: "Permission list \<Rightarrow> ValidatorMode \<Rightarrow> SessionKeyValidatorArgs" where
  "sampleArgs ps m =
     \<lparr> signer = sampleSigner, entryPoint = None,
       validatorData =
         \<lparr> sessionKey = ''0x00000000000000000000000000000000000000bb'',
           sessionKeyData =
             Some \<lparr> validUntil = None, validAfter = None, paymaster = None,
                    permissions = Some ps \<rparr> \<rparr>,
       validatorAddress = None, executorData = None, mode = Some m \<rparr>"


text \<open>
  A call \<open>transfer(0x...aa, 100)\<close> and three permissions on it: the first allows
  an amount of at least 100 with a value limit of 5, the second an amount below 50 with a
  value limit of 10, the third any amount with a value limit of 2.
\<close>

definition sampleTransfer :: hex where
  "sampleTransfer =
     ''0xa9059cbb'' @ replicate 62 CHR ''0'' @ ''aa'' @ replicate 62 CHR ''0'' @ ''64''"

definition sampleRulePermissions :: "Permission list" where
  "sampleRulePermissions =
     [ (samplePermission addressA (Some ''0xa9059cbb'') (Some 5))
         \<lparr> rules := Some [\<lparr> offset = 32, condition = GREATER_THAN_OR_EQUAL,
                             param = ''0x'' @ replicate 62 CHR ''0'' @ ''64'' \<rparr>] \<rparr>,
       (samplePermission addressA (Some ''0xa9059cbb'') (Some 10))
         \<lparr> rules := Some [\<lparr> offset = 32, condition = LESS_THAN,
                             param = ''0x'' @ replicate 62 CHR ''0'' @ ''32'' \<rparr>] \<rparr>,
       samplePermission addressA (Some ''0xA9059CBB'') (Some 2) ]"

definition isOk :: "'e + 'a \<Rightarrow> bool" where
  "isOk x = (case x of Inl e \<Rightarrow> False | Inr y \<Rightarrow> True)"

text \<open>The environment in which every call data decodes to the given call.\<close>

definition sampleEnvDecoding :: "FunctionCall \<Rightarrow> Env" where
  "sampleEnvDecoding c = sampleEnv \<lparr> decodeFunctionData := (\<lambda>cd. Inr c) \<rparr>"

definition sampleP1 :: Permission where
  "sampleP1 = samplePermission addressA (Some ''0xa9059cbb'') (Some 10)"

definition sampleP2 :: Permission where
  "sampleP2 = samplePermission addressA (Some ''0xa9059cbb'') (Some 5)"


definition sampleDelegate :: Permission where
  "sampleDelegate = sampleP1 \<lparr> operation := Some DelegateCall \<rparr>"

definition sampleCall :: Permission where
  "sampleCall = sampleP1 \<lparr> operation := Some Call \<rparr>"

definition sampleOther :: Permission where
  "sampleOther = samplePermission addressA (Some ''0xaaaaaaaa'') None"


definition sampleUserOpHash :: hex where
  "sampleUserOpHash =
     sampleHash (concatHex [sender (sampleUserOperation ''0x''),
                            callData (sampleUserOperation ''0x''), ''0x''])"

definition sampleSigned :: hex where
  "sampleSigned = concatHex [sampleUserOpHash, sampleUserOpHash, ''0x00'']"

definition sampleClient :: Client where
  "sampleClient = \<lparr> chain = Some 80001 \<rparr>"

definition sampleEcdsaArgs :: EcdsaValidatorArgs where
  "sampleEcdsaArgs = \<lparr> e_signer = sampleSigner, e_entryPoint = None, e_validatorAddress = None \<rparr>"

definition sampleEcdsa :: EcdsaValidator where
  "sampleEcdsa =
     \<lparr> viemSigner = sampleSigner, ecdsa_entryPoint = ENTRYPOINT_V0_6,
       ecdsa_address = ECDSA_VALIDATOR_ADDRESS sampleEnv, ecdsa_chainId = 80001 \<rparr>"

definition sampleKernelArgs :: "KernelPlugin \<Rightarrow> KernelPlugin option \<Rightarrow> KernelAccountArgs" where
  "sampleKernelArgs dv pl =
     \<lparr> defaultValidator = dv, plugin = pl, k_entryPoint = None, k_index = None,
       factoryAddress = None, accountLogicAddress = None,
       deployedAccountAddress = Some ''0x00000000000000000000000000000000000000cc'' \<rparr>"

text \<open>A 65-byte signature with the given recovery byte.\<close>

definition sampleSignature :: "string \<Rightarrow> hex" where
  "sampleSignature vv = ''0x'' @ replicate 64 CHR ''1'' @ replicate 64 CHR ''2'' @ vv"

definition sampleTx :: "CallType option \<Rightarrow> Tx" where
  "sampleTx ct = \<lparr> tx_to = zeroAddress, tx_value = 0, tx_data = ''0x'', callType = ct \<rparr>"

section \<open>Hex digits, their values and the order of strings\<close>

lemma isHexChar_code: "isHexChar c \<Longrightarrow> hexCode (of_char c)"
  unfolding isHexChar_def by (auto simp: hexCode_def lowHexCode_def)

lemma toLowerChar_low: "lowHexCode (of_char c) \<Longrightarrow> toLowerChar c = c"
  by (auto simp: toLowerChar_def lowHexCode_def Let_def)

lemma toLowerChar_upper:
  assumes "65 \<le> (of_char c :: nat)" "(of_char c :: nat) \<le> 70"
  shows "(of_char (toLowerChar c) :: nat) = of_char c + 32"
proof -
  have "toLowerChar c = char_of ((of_char c :: nat) + 32)"
    using assms by (simp add: toLowerChar_def Let_def)
  moreover have "((of_char c :: nat) + 32) mod 256 = of_char c + 32"
    using assms by simp
  ultimately show ?thesis by simp
qed

lemma toLowerChar_hex_code:
  assumes "isHexChar c"
  shows "lowHexCode (of_char (toLowerChar c))"
proof (cases "lowHexCode (of_char c)")
  case True then show ?thesis by (simp add: toLowerChar_low)
next
  case False
  with isHexChar_code [OF assms] have u: "65 \<le> (of_char c :: nat)" "(of_char c :: nat) \<le> 70"
    by (simp_all add: hexCode_def)
  show ?thesis unfolding toLowerChar_upper [OF u] using u by (simp add: lowHexCode_def)
qed

lemma toLowerChar_hex_value:
  assumes "isHexChar c"
  shows "hexDigitValue (toLowerChar c) = hexDigitValue c"
proof (cases "lowHexCode (of_char c)")
  case True then show ?thesis by (simp add: toLowerChar_low)
next
  case False
  with isHexChar_code [OF assms] have u: "65 \<le> (of_char c :: nat)" "(of_char c :: nat) \<le> 70"
    by (simp_all add: hexCode_def)
  show ?thesis unfolding hexDigitValue_def Let_def toLowerChar_upper [OF u] using u by simp
qed

lemma hexDigitValue_lt16: "hexDigitValue c < 16"
  unfolding hexDigitValue_def Let_def by auto

lemma hexDigitValue_low:
  assumes "lowHexCode (of_char c)"
  shows "hexDigitValue c = (if (of_char c :: nat) \<le> 57 then of_char c - 48 else of_char c - 87)"
proof -
  define n where "n = (of_char c :: nat)"
  have ln: "lowHexCode n" using assms by (simp add: n_def)
  have e: "hexDigitValue c = (if 48 \<le> n \<and> n \<le> 57 then n - 48
       else if 97 \<le> n \<and> n \<le> 102 then n - 87
       else if 65 \<le> n \<and> n \<le> 70 then n - 55 else 0)"
    unfolding hexDigitValue_def Let_def n_def by (rule refl)
  have "hexDigitValue c = (if n \<le> 57 then n - 48 else n - 87)"
    unfolding e using ln unfolding lowHexCode_def by (cases "n \<le> 57") auto
  then show ?thesis unfolding n_def .
qed

lemma lowHex_nat_less:
  assumes "lowHexCode n" "lowHexCode m"
  shows "(n < m) = ((if n \<le> 57 then n - 48 else n - 87) < (if m \<le> 57 then m - 48 else m - 87))"
  using assms unfolding lowHexCode_def by (cases "n \<le> 57"; cases "m \<le> 57") auto

lemma lowHex_nat_eq:
  assumes "lowHexCode n" "lowHexCode m"
  shows "(n = m) = ((if n \<le> 57 then n - 48 else n - 87) = (if m \<le> 57 then m - 48 else m - 87))"
  using assms unfolding lowHexCode_def by (cases "n \<le> 57"; cases "m \<le> 57") auto

lemma lowHex_less_iff:
  assumes "lowHexCode (of_char x)" "lowHexCode (of_char y)"
  shows "((of_char x :: nat) < of_char y) = (hexDigitValue x < hexDigitValue y)"
  unfolding hexDigitValue_low [OF assms(1)] hexDigitValue_low [OF assms(2)]
  by (rule lowHex_nat_less [OF assms])

lemma lowHex_eq_iff:
  assumes "lowHexCode (of_char x)" "lowHexCode (of_char y)"
  shows "(x = y) = (hexDigitValue x = hexDigitValue y)"
proof -
  have "(x = y) = ((of_char x :: nat) = of_char y)" by simp
  also have "\<dots> = (hexDigitValue x = hexDigitValue y)"
    unfolding hexDigitValue_low [OF assms(1)] hexDigitValue_low [OF assms(2)]
    by (rule lowHex_nat_eq [OF assms])
  finally show ?thesis .
qed

lemma foldl_hex_acc:
  "foldl (\<lambda>acc c. 16 * acc + hexDigitValue c) a ds = a * 16 ^ length ds + hexValue ds"
proof (induction ds arbitrary: a)
  case Nil show ?case by (simp add: hexValue_def)
next
  case (Cons d ds)
  have "foldl (\<lambda>acc c. 16 * acc + hexDigitValue c) a (d # ds)
        = foldl (\<lambda>acc c. 16 * acc + hexDigitValue c) (16 * a + hexDigitValue d) ds" by simp
  also have "\<dots> = (16 * a + hexDigitValue d) * 16 ^ length ds + hexValue ds" by (rule Cons.IH)
  finally have l: "foldl (\<lambda>acc c. 16 * acc + hexDigitValue c) a (d # ds)
        = (16 * a + hexDigitValue d) * 16 ^ length ds + hexValue ds" .
  have "hexValue (d # ds) = foldl (\<lambda>acc c. 16 * acc + hexDigitValue c) (hexDigitValue d) ds"
    by (simp add: hexValue_def)
  also have "\<dots> = hexDigitValue d * 16 ^ length ds + hexValue ds" by (rule Cons.IH)
  finally have r: "hexValue (d # ds) = hexDigitValue d * 16 ^ length ds + hexValue ds" .
  show ?case unfolding l r by (simp add: algebra_simps)
qed

lemma hexValue_Nil: "hexValue [] = 0" by (simp add: hexValue_def)

lemma hexValue_Cons: "hexValue (d # ds) = hexDigitValue d * 16 ^ length ds + hexValue ds"
  using foldl_hex_acc [of "hexDigitValue d" ds] by (simp add: hexValue_def)

lemma hexValue_bound: "hexValue ds < 16 ^ length ds"
proof (induction ds)
  case Nil show ?case by (simp add: hexValue_Nil)
next
  case (Cons d ds)
  have "hexDigitValue d \<le> 15" using hexDigitValue_lt16 [of d] by simp
  then have "hexDigitValue d * 16 ^ length ds \<le> 15 * 16 ^ length ds" by (rule mult_le_mono1)
  moreover have "hexValue ds < 16 ^ length ds" by (rule Cons.IH)
  ultimately have "hexDigitValue d * 16 ^ length ds + hexValue ds < 15 * 16 ^ length ds + 16 ^ length ds"
    by (rule add_le_less_mono)
  then show ?case by (simp add: hexValue_Cons)
qed

lemma strLess_hexValue:
  assumes "length xs = length ys"
    and "\<forall>c\<in>set xs. lowHexCode (of_char c)" and "\<forall>c\<in>set ys. lowHexCode (of_char c)"
  shows "strLess xs ys = (hexValue xs < hexValue ys) \<and> (xs = ys) = (hexValue xs = hexValue ys)"
  using assms
proof (induction xs ys rule: list_induct2)
  case Nil show ?case by (simp add: hexValue_Nil)
next
  case (Cons x xs y ys)
  have lx: "lowHexCode (of_char x)" and ly: "lowHexCode (of_char y)" using Cons.prems by simp_all
  have ih: "strLess xs ys = (hexValue xs < hexValue ys)" "(xs = ys) = (hexValue xs = hexValue ys)"
    using Cons by simp_all
  have bx: "hexValue xs < 16 ^ length xs" by (rule hexValue_bound)
  have by': "hexValue ys < 16 ^ length xs" using hexValue_bound [of ys] Cons.hyps by simp
  define a where "a = hexDigitValue x"
  define b where "b = hexDigitValue y"
  define p where "p = (16::nat) ^ length xs"
  define u where "u = hexValue xs"
  define v where "v = hexValue ys"
  have less: "((of_char x :: nat) < of_char y) = (a < b)" unfolding a_def b_def by (rule lowHex_less_iff [OF lx ly])
  have eq: "(x = y) = (a = b)" unfolding a_def b_def by (rule lowHex_eq_iff [OF lx ly])
  have up: "u < p" "v < p" using bx by' by (simp_all add: u_def v_def p_def)
  have key1: "(a * p + u < b * p + v) = (a < b \<or> (a = b \<and> u < v))"
  proof (cases "a < b")
    case True
    then have "Suc a \<le> b" by simp
    then have "Suc a * p \<le> b * p" by (rule mult_le_mono1)
    then have "a * p + u < b * p + v" using up by simp
    with True show ?thesis by simp
  next
    case False
    show ?thesis
    proof (cases "a = b")
      case True then show ?thesis by simp
    next
      case F2: False
      with False have "b < a" by simp
      then have "Suc b \<le> a" by simp
      then have "Suc b * p \<le> a * p" by (rule mult_le_mono1)
      then have "\<not> (a * p + u < b * p + v)" using up by simp
      with False F2 show ?thesis by simp
    qed
  qed
  have key2: "(a * p + u = b * p + v) = (a = b \<and> u = v)"
  proof -
    have "(a * p + u = b * p + v) = (\<not> (a * p + u < b * p + v) \<and> \<not> (b * p + v < a * p + u))" by auto
    also have "\<dots> = (a = b \<and> u = v)"
    proof -
      have k: "(b * p + v < a * p + u) = (b < a \<or> (b = a \<and> v < u))"
      proof (cases "b < a")
        case True
        then have "Suc b \<le> a" by simp
        then have "Suc b * p \<le> a * p" by (rule mult_le_mono1)
        then have "b * p + v < a * p + u" using up by simp
        with True show ?thesis by simp
      next
        case False
        show ?thesis
        proof (cases "a = b")
          case True then show ?thesis by simp
        next
          case F2: False
          with False have "a < b" by simp
          then have "Suc a \<le> b" by simp
          then have "Suc a * p \<le> b * p" by (rule mult_le_mono1)
          then have "\<not> (b * p + v < a * p + u)" using up by simp
          with False F2 show ?thesis by auto
        qed
      qed
      show ?thesis unfolding key1 k by auto
    qed
    finally show ?thesis .
  qed
  have hx: "hexValue (x # xs) = a * p + u" by (simp add: hexValue_Cons a_def p_def u_def)
  have hy: "hexValue (y # ys) = b * p + v" using Cons.hyps by (simp add: hexValue_Cons b_def p_def v_def)
  show ?case
    unfolding hx hy key1 key2 using less eq ih by (auto simp: u_def v_def)
qed

section \<open>Rules as comparisons of 256-bit unsigned integers\<close>

lemma replace0x_prefixed: "replace0x (''0x'' @ w) = w"
  by simp

lemma isHex_prefixed: "isHex (''0x'' @ w) = list_all isHexChar w"
  by (simp add: isHex_def)

lemma isHex_split: "isHex v \<Longrightarrow> v = ''0x'' @ drop 2 v \<and> list_all isHexChar (drop 2 v)"
  unfolding isHex_def by (metis append_take_drop_id)

lemma toLowerCase_zeros: "toLowerCase (replicate k CHR ''0'') = replicate k CHR ''0''"
  by (simp add: toLowerCase_def toLowerChar_def)

lemma toLowerCase_append: "toLowerCase (a @ b) = toLowerCase a @ toLowerCase b"
  by (simp add: toLowerCase_def)

lemma toLowerCase_0x: "toLowerCase ''0x'' = ''0x''"
  by (simp add: toLowerCase_def toLowerChar_def)

lemma getFormattedHex_digits:
  assumes "list_all isHexChar w" "length w \<le> 64"
  shows "getFormattedHex (''0x'' @ w) =
           Inr (''0x'' @ replicate (64 - length w) CHR ''0'' @ toLowerCase w)"
proof -
  have h: "isHex (''0x'' @ w)" using assms(1) by (simp only: isHex_prefixed)
  have p: "pad (''0x'' @ w) 32 = Inr (''0x'' @ replicate (64 - length w) CHR ''0'' @ w)"
    unfolding pad_def replace0x_prefixed Let_def using assms(2) by simp
  show ?thesis
    unfolding getFormattedHex_def using h
    by (simp only: p if_True sum.case toLowerCase_append toLowerCase_0x toLowerCase_zeros)
qed

lemma hexValue_zeros: "hexValue (replicate k CHR ''0'' @ ds) = hexValue ds"
proof (induction k)
  case 0 show ?case by simp
next
  case (Suc k)
  have "hexDigitValue CHR ''0'' = 0" by (simp add: hexDigitValue_def)
  then show ?case using Suc by (simp add: hexValue_Cons)
qed

lemma hexValue_lower: "list_all isHexChar w \<Longrightarrow> hexValue (toLowerCase w) = hexValue w"
proof (induction w)
  case Nil show ?case by (simp add: toLowerCase_def)
next
  case (Cons c w)
  then have "hexValue (toLowerCase w) = hexValue w" and "isHexChar c" by simp_all
  then show ?case
    by (simp add: toLowerCase_def hexValue_Cons toLowerChar_hex_value)
qed

lemma lower_digits_low:
  assumes "list_all isHexChar w"
  shows "\<forall>c\<in>set (replicate k CHR ''0'' @ toLowerCase w). lowHexCode (of_char c)"
proof -
  have "lowHexCode (of_char CHR ''0'')" by (simp add: lowHexCode_def)
  moreover have "\<forall>c\<in>set (toLowerCase w). lowHexCode (of_char c)"
    using assms by (auto simp: toLowerCase_def list_all_iff toLowerChar_hex_code)
  ultimately show ?thesis by auto
qed

lemma strLess_prefix: "strLess (''0x'' @ a) (''0x'' @ b) = strLess a b"
  by simp

lemma word64_props:
  assumes "list_all isHexChar w" "length w \<le> 64"
  shows "length (word64 w) = 64" "hexValue (word64 w) = hexValue w"
    "\<forall>c\<in>set (word64 w). lowHexCode (of_char c)"
proof -
  show "length (word64 w) = 64" using assms(2) by (simp add: word64_def toLowerCase_def)
  show "hexValue (word64 w) = hexValue w"
    unfolding word64_def hexValue_zeros by (rule hexValue_lower [OF assms(1)])
  show "\<forall>c\<in>set (word64 w). lowHexCode (of_char c)"
    unfolding word64_def by (rule lower_digits_low [OF assms(1)])
qed

lemma evaluateRuleCondition_words:
  assumes "list_all isHexChar a" "length a \<le> 64" "list_all isHexChar b" "length b \<le> 64"
  shows "evaluateRuleCondition (''0x'' @ word64 a) (''0x'' @ word64 b) c
           = compareUint c (hexValue a) (hexValue b)"
proof -
  have k: "strLess (word64 a) (word64 b) = (hexValue a < hexValue b)"
      "(word64 a = word64 b) = (hexValue a = hexValue b)"
    using strLess_hexValue [of "word64 a" "word64 b"]
      word64_props [OF assms(1,2)] word64_props [OF assms(3,4)] by simp_all
  have k': "strLess (word64 b) (word64 a) = (hexValue b < hexValue a)"
    using strLess_hexValue [of "word64 b" "word64 a"]
      word64_props [OF assms(1,2)] word64_props [OF assms(3,4)] by simp
  show ?thesis
    by (cases c) (auto simp: k k')
qed

lemma hexValue_word_bound: "length w \<le> 64 \<Longrightarrow> hexValue w < 2 ^ 256"
proof -
  assume l: "length w \<le> 64"
  have "hexValue w < 16 ^ length w" by (rule hexValue_bound)
  also have "(16::nat) ^ length w \<le> 16 ^ 64" using l by (intro power_increasing) simp_all
  also have "(16::nat) ^ 64 = (2 ^ 4) ^ 64" by simp
  also have "\<dots> = 2 ^ 256" by (simp only: power_mult [symmetric]) simp
  finally show ?thesis .
qed

lemma slice_hex:
  assumes "isHex d"
  shows "list_all isHexChar (slice d (10 + off * 2) (10 + off * 2 + 64))"
    "length (slice d (10 + off * 2) (10 + off * 2 + 64)) \<le> 64"
proof -
  have "list_all isHexChar (drop 2 d)" using assms by (simp add: isHex_def)
  moreover have "drop (10 + off * 2) d = drop (8 + off * 2) (drop 2 d)" by simp
  ultimately have "list_all isHexChar (drop (10 + off * 2) d)"
    unfolding list_all_iff using set_drop_subset [of "8 + off * 2" "drop 2 d"] by auto
  then show "list_all isHexChar (slice d (10 + off * 2) (10 + off * 2 + 64))"
    by (auto simp: slice_def list_all_iff dest: in_set_takeD)
  show "length (slice d (10 + off * 2) (10 + off * 2 + 64)) \<le> 64"
    by (simp add: slice_def)
qed

lemma rule_step:
  assumes "isHex d" "wellFormedRule r"
  shows "getFormattedHex (''0x'' @ slice d (10 + offset r * 2) (10 + offset r * 2 + 64))
           = Inr (''0x'' @ word64 (slice d (10 + offset r * 2) (10 + offset r * 2 + 64)))"
    and "getFormattedHex (param r) = Inr (''0x'' @ word64 (drop 2 (param r)))"
    and "evaluateRuleCondition (''0x'' @ word64 (slice d (10 + offset r * 2) (10 + offset r * 2 + 64)))
            (''0x'' @ word64 (drop 2 (param r))) (condition r) = ruleHolds d r"
proof -
  let ?w = "slice d (10 + offset r * 2) (10 + offset r * 2 + 64)"
  let ?p = "drop 2 (param r)"
  have w: "list_all isHexChar ?w" "length ?w \<le> 64" using slice_hex [OF assms(1)] by simp_all
  have p: "param r = ''0x'' @ ?p" "list_all isHexChar ?p" "length ?p \<le> 64"
    using assms(2) isHex_split [of "param r"] by (auto simp: wellFormedRule_def)
  show "getFormattedHex (''0x'' @ ?w) = Inr (''0x'' @ word64 ?w)"
    unfolding word64_def by (rule getFormattedHex_digits [OF w])
  have "getFormattedHex (''0x'' @ ?p) = Inr (''0x'' @ word64 ?p)"
    unfolding word64_def by (rule getFormattedHex_digits [OF p(2,3)])
  then show "getFormattedHex (param r) = Inr (''0x'' @ word64 ?p)" using p(1) by simp
  show "evaluateRuleCondition (''0x'' @ word64 ?w) (''0x'' @ word64 ?p) (condition r) = ruleHolds d r"
    unfolding ruleHolds_def wordAt_def
    by (rule evaluateRuleCondition_words [OF w p(2,3)])
qed

lemma rulesPass_spec:
  assumes "isHex d" "\<forall>r\<in>set rs. wellFormedRule r"
  shows "rulesPass rs d = Inr (\<forall>r\<in>set rs. ruleHolds d r)"
  using assms(2)
proof (induction rs)
  case Nil show ?case by simp
next
  case (Cons r rs)
  have wf: "wellFormedRule r" using Cons.prems by simp
  have ih: "rulesPass rs d = Inr (\<forall>r\<in>set rs. ruleHolds d r)" using Cons by simp
  have "rulesPass (r # rs) d =
          (if \<not> ruleHolds d r then Inr False else Inr (\<forall>r\<in>set rs. ruleHolds d r))"
    unfolding rulesPass.simps(2) rule_step(1) [OF assms(1) wf] rule_step(2) [OF assms(1) wf]
      sum.case rule_step(3) [OF assms(1) wf] ih ..
  then show ?case by simp
qed

lemma findPermissionByRule_spec:
  assumes "isHex d" "\<forall>p\<in>set ps. \<forall>r\<in>set (rulesOf p). wellFormedRule r"
  shows "findPermissionByRule ps d = Inr (find (\<lambda>p. \<forall>r\<in>set (rulesOf p). ruleHolds d r) ps)"
  using assms(2)
proof (induction ps)
  case Nil show ?case by simp
next
  case (Cons p ps)
  have "rulesPass (rulesOf p) d = Inr (\<forall>r\<in>set (rulesOf p). ruleHolds d r)"
    using Cons.prems by (intro rulesPass_spec [OF assms(1)]) simp
  moreover have "findPermissionByRule ps d = Inr (find (\<lambda>p. \<forall>r\<in>set (rulesOf p). ruleHolds d r) ps)"
    using Cons by simp
  ultimately show ?case
    by (cases "\<forall>r\<in>set (rulesOf p). ruleHolds d r") auto
qed

section \<open>The result monad and the construction of a validator\<close>

lemma bindE_simps [simp]:
  "bindE (Inl e) f = Inl e"
  "bindE (Inr x) f = f x"
  by (simp_all add: bindE_def)

lemma ext_simps [simp]:
  "ext (Inl m) = Inl (ExternalError m)"
  "ext (Inr y) = Inr y"
  by (simp_all add: ext_def)

lemma bindE_Inr_iff: "(bindE m f = Inr y) = (\<exists>x. m = Inr x \<and> f x = Inr y)"
  by (cases m) simp_all

lemma permissionsOf_normalised:
  "permissionsOf (normalisedSessionKeyData args) = normalisedPermissions args"
  by (simp add: permissionsOf_def normalisedSessionKeyData_def Let_def)

lemma validator_sessionKeyData:
  assumes "signerToSessionKeyValidator env args = Inr v"
  shows "v_sessionKeyData v = normalisedSessionKeyData args"
    and "permissionsOf (v_sessionKeyData v) = normalisedPermissions args"
proof -
  show "v_sessionKeyData v = normalisedSessionKeyData args"
    using assms unfolding signerToSessionKeyValidator_def Let_def
    by (auto simp: bindE_Inr_iff)
  then show "permissionsOf (v_sessionKeyData v) = normalisedPermissions args"
    by (simp add: permissionsOf_normalised)
qed

lemma withDefaults_fields:
  "target (withDefaults p i) = target p"
  "limitOf (withDefaults p i) = limitOf p"
  "rulesOf (withDefaults p i) = rulesOf p"
  "sig (withDefaults p i) = Some (sigOf p)"
  "sigOf (withDefaults p i) = sigOf p"
  "index (withDefaults p i) = Some i"
  by (simp_all add: withDefaults_def limitOf_def rulesOf_def sigOf_def split: option.splits)

lemma filterByOperation_Call: "filterByOperation ps Call = ps"
  by (simp add: filterByOperation_def)

lemma two_limits:
  assumes "target P1 = A" "target P2 = A" "valueLimit P1 = Some 10" "valueLimit P2 = Some 5"
    "sig P1 = sig P2" "rulesOf P1 = []" "toLowerCase (slice d 0 10) = toLowerCase (sigOf P1)"
  shows "filterPermissionsFor [withDefaults P1 i, withDefaults P2 j] A d 7 = Inr (Some (withDefaults P1 i))"
    and "filterPermissionsFor [withDefaults P2 j, withDefaults P1 i] A d 7 = Inr (Some (withDefaults P1 i))"
proof -
  have s2: "sigOf P2 = sigOf P1" using assms(5) by (simp add: sigOf_def)
  have l: "limitOf P1 = 10" "limitOf P2 = 5" using assms(3,4) by (simp_all add: limitOf_def)
  show "filterPermissionsFor [withDefaults P1 i, withDefaults P2 j] A d 7 = Inr (Some (withDefaults P1 i))"
    unfolding filterPermissionsFor_def filterByOperation_Call filterBySignature_def Let_def
    by (simp add: withDefaults_fields assms(1,2,6,7) s2 l)
  show "filterPermissionsFor [withDefaults P2 j, withDefaults P1 i] A d 7 = Inr (Some (withDefaults P1 i))"
    unfolding filterPermissionsFor_def filterByOperation_Call filterBySignature_def Let_def
    by (simp add: withDefaults_fields assms(1,2,6,7) s2 l)
qed

lemma filterPermissions_single:
  "filterPermissions ps [t] [d] [val] =
     (case filterPermissionsFor ps t d val of
        Inl e \<Rightarrow> Inl e
      | Inr None \<Rightarrow> Inr None
      | Inr (Some p) \<Rightarrow> Inr (Some [p]))"
  by (simp add: filterPermissions_def split: sum.splits option.splits)

lemma findPermissionByRule_member:
  "findPermissionByRule ps d = Inr (Some p) \<Longrightarrow> p \<in> set ps"
proof (induction ps)
  case Nil then show ?case by simp
next
  case (Cons q ps)
  show ?case
  proof (cases "rulesPass (rulesOf q) d")
    case (Inl e) with Cons.prems show ?thesis by simp
  next
    case (Inr b) with Cons show ?thesis by (cases b) auto
  qed
qed

lemma matched_within_limit:
  assumes "filterPermissionsFor qs t d val = Inr (Some q)"
  shows "q \<in> set qs \<and> val \<le> limitOf q"
proof -
  let ?T = "filter (\<lambda>permission. toLowerCase (target permission) = toLowerCase t \<or>
                  toLowerCase (target permission) = toLowerCase zeroAddress) qs"
  let ?V = "filter (\<lambda>permission. val \<le> limitOf permission)
              (filterBySignature ?T (toLowerCase (slice d 0 10)))"
  have "findPermissionByRule (sort_key (\<lambda>permission. - limitOf permission) ?V) d = Inr (Some q)"
    using assms unfolding filterPermissionsFor_def filterByOperation_Call Let_def
    by (simp split: if_splits)
  then have "q \<in> set ?V" using findPermissionByRule_member by fastforce
  then show ?thesis by (auto simp: filterBySignature_def)
qed

lemma value_stage_first:
  "filterPermissionsFor qs t d val
     = filterPermissionsFor (filter (\<lambda>p. val \<le> limitOf p) qs) t d val"
proof -
  define P where "P = (\<lambda>permission :: Permission. toLowerCase (target permission) = toLowerCase t \<or>
                  toLowerCase (target permission) = toLowerCase zeroAddress)"
  define S where "S = (\<lambda>permission :: Permission. toLowerCase (case sig permission of Some s \<Rightarrow> s | None \<Rightarrow> emptySelector)
                 = toLowerCase (slice d 0 10))"
  define L where "L = (\<lambda>p :: Permission. val \<le> limitOf p)"
  define R where "R = (\<lambda>xs :: Permission list. if xs = [] then Inr None
             else findPermissionByRule (sort_key (\<lambda>p. - limitOf p) xs) d)"
  have gen: "filterPermissionsFor xs t d val
          = (if xs = [] then Inr None else if filter P xs = [] then Inr None
             else R (filter L (filter S (filter P xs))))" for xs
    unfolding filterPermissionsFor_def filterByOperation_Call filterBySignature_def Let_def
      P_def S_def L_def R_def by (simp del: filter_filter)
  have same: "filter L (filter S (filter P (filter L qs))) = filter L (filter S (filter P qs))"
    by (induction qs) simp_all
  have e2: "filter P (filter L qs) = [] \<Longrightarrow> filter L (filter S (filter P qs)) = []"
    by (induction qs) (simp_all split: if_splits)
  have e3: "filter P qs = [] \<Longrightarrow> filter L (filter S (filter P qs)) = []"
    by simp
  have e4: "qs = [] \<Longrightarrow> filter L (filter S (filter P qs)) = []"
    by simp
  have RN: "R [] = Inr None" by (simp add: R_def)
  have l: "filterPermissionsFor qs t d val = R (filter L (filter S (filter P qs)))"
  proof (cases "qs = [] \<or> filter P qs = []")
    case True
    then have "filter L (filter S (filter P qs)) = []" using e3 e4 by blast
    then show ?thesis using True unfolding gen [of qs] by (simp add: RN)
  next
    case False then show ?thesis unfolding gen [of qs] by simp
  qed
  have r: "filterPermissionsFor (filter L qs) t d val = R (filter L (filter S (filter P qs)))"
  proof (cases "filter L qs = [] \<or> filter P (filter L qs) = []")
    case True
    then have a: "filter P (filter L qs) = []" by (auto simp del: filter_filter)
    from a have z: "filter L (filter S (filter P qs)) = []" by (rule e2)
    have "filterPermissionsFor (filter L qs) t d val = Inr None"
      using a by (simp add: gen del: filter_filter)
    then show ?thesis by (simp only: z RN)
  next
    case False then show ?thesis unfolding gen [of "filter L qs"] same by simp
  qed
  show ?thesis unfolding l r L_def [symmetric] ..
qed

lemma below_limit_unmatched:
  assumes "\<forall>p\<in>set qs. limitOf p < val"
  shows "filterPermissionsFor qs t d val = Inr None"
proof -
  have "filter (\<lambda>p. val \<le> limitOf p) qs = []" using assms by (auto simp: filter_empty_conv)
  then show ?thesis
    using value_stage_first [of qs t d val] by (simp add: filterPermissionsFor_def)
qed

lemma two_limits_low:
  assumes "target P1 = A" "target P2 = A" "valueLimit P1 = Some 10" "valueLimit P2 = Some 5"
    "sig P1 = sig P2" "rulesOf P1 = []" "toLowerCase (slice d 0 10) = toLowerCase (sigOf P1)"
    "val \<le> 5"
  shows "filterPermissionsFor [withDefaults P1 i, withDefaults P2 j] A d val = Inr (Some (withDefaults P1 i))"
    and "filterPermissionsFor [withDefaults P2 j, withDefaults P1 i] A d val = Inr (Some (withDefaults P1 i))"
proof -
  have s2: "sigOf P2 = sigOf P1" using assms(5) by (simp add: sigOf_def)
  have l: "limitOf P1 = 10" "limitOf P2 = 5" using assms(3,4) by (simp_all add: limitOf_def)
  show "filterPermissionsFor [withDefaults P1 i, withDefaults P2 j] A d val = Inr (Some (withDefaults P1 i))"
    unfolding filterPermissionsFor_def filterByOperation_Call filterBySignature_def Let_def
    using assms(8) by (simp add: withDefaults_fields assms(1,2,6,7) s2 l)
  show "filterPermissionsFor [withDefaults P2 j, withDefaults P1 i] A d val = Inr (Some (withDefaults P1 i))"
    unfolding filterPermissionsFor_def filterByOperation_Call filterBySignature_def Let_def
    using assms(8) by (simp add: withDefaults_fields assms(1,2,6,7) s2 l)
qed


lemma lone_low_limit:
  assumes "valueLimit P2 = Some 5"
  shows "filterPermissionsFor [withDefaults P2 j] t d 7 = Inr None"
proof (rule below_limit_unmatched)
  have "limitOf P2 = 5" using assms by (simp add: limitOf_def)
  then show "\<forall>p\<in>set [withDefaults P2 j]. limitOf p < 7"
    by (simp add: withDefaults_fields)
qed

lemma lone_high_limit:
  assumes "target P1 = A" "valueLimit P1 = Some 10" "rulesOf P1 = []"
    "toLowerCase (slice d 0 10) = toLowerCase (sigOf P1)"
  shows "filterPermissionsFor [withDefaults P1 i] A d 7 = Inr (Some (withDefaults P1 i))"
proof -
  have l: "limitOf P1 = 10" using assms(2) by (simp add: limitOf_def)
  show ?thesis
    unfolding filterPermissionsFor_def filterByOperation_Call filterBySignature_def Let_def
    by (simp add: withDefaults_fields assms(1,3,4) l)
qed


text \<open>
  C1. A validator built from the two permissions \<open>P1\<close> (limit 10) and \<open>P2\<close> (limit 5)
  on the same target and selector, \<open>P1\<close> without rules, in either order, and an
  \<open>execute\<close> call to that target with value 7 and that selector. Of the validator's
  permissions only \<open>P1\<close> has a limit of at least 7, and the matcher returns \<open>P1\<close>
  (with its defaults and its index), and nothing else. The matcher's value-limit stage
  is what removes \<open>P2\<close>: \<open>filterPermissionsFor\<close> gives the same result on the list
  with the permissions below the value taken out beforehand; \<open>P2\<close> alone authorises
  nothing at value 7 (neither as a list given to \<open>filterPermissionsFor\<close> and
  \<open>filterPermissions\<close> nor as the only permission of a validator), while \<open>P1\<close> alone
  is matched; whatever \<open>filterPermissionsFor\<close> returns, for any list and call, is a
  member of the list whose limit is at least the value of the call. When both survive
  (a value of at most 5), \<open>P1\<close>, with the higher limit, is the one selected, in either
  order of the list.
\<close>

theorem C1_value_limit_selects_the_larger:
  assumes built: "signerToSessionKeyValidator env args = Inr v"
    and given: "givenPermissions args = [P1, P2] \<or> givenPermissions args = [P2, P1]"
    and targets: "target P1 = A" "target P2 = A"
    and limits: "valueLimit P1 = Some 10" "valueLimit P2 = Some 5"
    and sigs: "sig P1 = sig P2"
    and norules: "rulesOf P1 = []"
    and selector: "toLowerCase (slice d 0 10) = toLowerCase (sigOf P1)"
    and decoded: "decodeFunctionData env cd = Inr (ExecuteFn A 7 d opn)"
  shows "filter (\<lambda>p. 7 \<le> limitOf p) (permissionsOf (v_sessionKeyData v))
           = [withDefaults P1 (if givenPermissions args = [P1, P2] then 0 else 1)]
       \<and> filterPermissions (permissionsOf (v_sessionKeyData v)) [A] [d] [7]
           = Inr (Some [withDefaults P1 (if givenPermissions args = [P1, P2] then 0 else 1)])
       \<and> findMatchingPermissions env v cd
           = Single (withDefaults P1 (if givenPermissions args = [P1, P2] then 0 else 1))
       \<and> filterPermissionsFor (permissionsOf (v_sessionKeyData v)) A d 7
           = filterPermissionsFor
               (filter (\<lambda>p. 7 \<le> limitOf p) (permissionsOf (v_sessionKeyData v))) A d 7
       \<and> (\<forall>j. filterPermissionsFor [withDefaults P2 j] A d 7 = Inr None)
       \<and> (\<forall>j. filterPermissions [withDefaults P2 j] [A] [d] [7] = Inr None)
       \<and> (\<forall>i. filterPermissionsFor [withDefaults P1 i] A d 7 = Inr (Some (withDefaults P1 i)))
       \<and> (\<forall>args2 v2. signerToSessionKeyValidator env args2 = Inr v2
              \<and> givenPermissions args2 = [P2]
            \<longrightarrow> findMatchingPermissions env v2 cd = Undefined)
       \<and> (\<forall>qs t0 d0 val0 q. filterPermissionsFor qs t0 d0 val0 = Inr (Some q)
            \<longrightarrow> q \<in> set qs \<and> val0 \<le> limitOf q)
       \<and> (\<forall>val. val \<le> 5
            \<longrightarrow> filterPermissionsFor (permissionsOf (v_sessionKeyData v)) A d val
                  = Inr (Some (withDefaults P1 (if givenPermissions args = [P1, P2] then 0 else 1))))"
proof -
  have l: "limitOf P1 = 10" "limitOf P2 = 5" using limits by (simp_all add: limitOf_def)
  note tl = two_limits [OF targets limits sigs norules selector]
  note tlow = two_limits_low [OF targets limits sigs norules selector]
  have lone2: "filterPermissionsFor [withDefaults P2 j] A d 7 = Inr None" for j
    by (rule lone_low_limit [OF limits(2)])
  have lone1: "filterPermissionsFor [withDefaults P1 i] A d 7 = Inr (Some (withDefaults P1 i))" for i
    by (rule lone_high_limit [OF targets(1) limits(1) norules selector])
  have c5: "\<forall>j. filterPermissionsFor [withDefaults P2 j] A d 7 = Inr None"
    using lone2 by simp
  have c6: "\<forall>j. filterPermissions [withDefaults P2 j] [A] [d] [7] = Inr None"
    unfolding filterPermissions_single by (simp add: lone2)
  have c7: "\<forall>i. filterPermissionsFor [withDefaults P1 i] A d 7 = Inr (Some (withDefaults P1 i))"
    using lone1 by simp
  have c8: "\<forall>args2 v2. signerToSessionKeyValidator env args2 = Inr v2
              \<and> givenPermissions args2 = [P2]
            \<longrightarrow> findMatchingPermissions env v2 cd = Undefined"
  proof (intro allI impI, elim conjE)
    fix args2 v2
    assume b2: "signerToSessionKeyValidator env args2 = Inr v2"
      and g2: "givenPermissions args2 = [P2]"
    have ps: "permissionsOf (v_sessionKeyData v2) = [withDefaults P2 0]"
      unfolding validator_sessionKeyData(2) [OF b2] normalisedPermissions_def g2
      by (simp add: upt_rec)
    show "findMatchingPermissions env v2 cd = Undefined"
      unfolding findMatchingPermissions_def decoded ps filterPermissions_single
      by (simp add: lone2)
  qed
  have c9: "\<forall>qs t0 d0 val0 q. filterPermissionsFor qs t0 d0 val0 = Inr (Some q)
            \<longrightarrow> q \<in> set qs \<and> val0 \<le> limitOf q"
    using matched_within_limit by blast
  have c4: "filterPermissionsFor (permissionsOf (v_sessionKeyData v)) A d 7
           = filterPermissionsFor
               (filter (\<lambda>p. 7 \<le> limitOf p) (permissionsOf (v_sessionKeyData v))) A d 7"
    by (rule value_stage_first)
  have c123_10: "filter (\<lambda>p. 7 \<le> limitOf p) (permissionsOf (v_sessionKeyData v))
           = [withDefaults P1 (if givenPermissions args = [P1, P2] then 0 else 1)]
       \<and> filterPermissions (permissionsOf (v_sessionKeyData v)) [A] [d] [7]
           = Inr (Some [withDefaults P1 (if givenPermissions args = [P1, P2] then 0 else 1)])
       \<and> findMatchingPermissions env v cd
           = Single (withDefaults P1 (if givenPermissions args = [P1, P2] then 0 else 1))
       \<and> (\<forall>val. val \<le> 5
            \<longrightarrow> filterPermissionsFor (permissionsOf (v_sessionKeyData v)) A d val
                  = Inr (Some (withDefaults P1 (if givenPermissions args = [P1, P2] then 0 else 1))))"
  proof (cases "givenPermissions args = [P1, P2]")
    case True
    have ps: "permissionsOf (v_sessionKeyData v) = [withDefaults P1 0, withDefaults P2 (Suc 0)]"
      unfolding validator_sessionKeyData(2) [OF built] normalisedPermissions_def True
      by (simp add: upt_rec)
    have m: "filterPermissionsFor [withDefaults P1 0, withDefaults P2 (Suc 0)] A d 7
               = Inr (Some (withDefaults P1 0))"
      by (rule tl(1))
    have low: "\<forall>val. val \<le> 5 \<longrightarrow>
        filterPermissionsFor [withDefaults P1 0, withDefaults P2 (Suc 0)] A d val
               = Inr (Some (withDefaults P1 0))"
      using tlow(1) by blast
    show ?thesis
      unfolding findMatchingPermissions_def decoded ps filterPermissions_single
      using True low by (simp add: withDefaults_fields l m)
  next
    case False
    with given have g: "givenPermissions args = [P2, P1]" by simp
    have ps: "permissionsOf (v_sessionKeyData v) = [withDefaults P2 0, withDefaults P1 (Suc 0)]"
      unfolding validator_sessionKeyData(2) [OF built] normalisedPermissions_def g
      by (simp add: upt_rec)
    have m: "filterPermissionsFor [withDefaults P2 0, withDefaults P1 (Suc 0)] A d 7
               = Inr (Some (withDefaults P1 (Suc 0)))"
      by (rule tl(2))
    have low: "\<forall>val. val \<le> 5 \<longrightarrow>
        filterPermissionsFor [withDefaults P2 0, withDefaults P1 (Suc 0)] A d val
               = Inr (Some (withDefaults P1 (Suc 0)))"
      using tlow(2) by blast
    show ?thesis
      unfolding findMatchingPermissions_def decoded ps filterPermissions_single
      using False low by (simp add: withDefaults_fields l m)
  qed
  show ?thesis
    using c123_10 c4 c5 c6 c7 c8 c9 by blast
qed


lemma isOk_obtain: "isOk x \<Longrightarrow> \<exists>y. x = Inr y"
  by (cases x) (simp_all add: isOk_def)


lemma mapE_isOk: "(\<And>x. isOk (f x)) \<Longrightarrow> isOk (mapE f xs)"
proof (induction xs)
  case Nil show ?case by (simp add: isOk_def)
next
  case (Cons x xs)
  from Cons.prems have "isOk (f x)" .
  then obtain y where y: "f x = Inr y" using isOk_obtain by blast
  from Cons have "isOk (mapE f xs)" by simp
  then obtain ys where ys: "mapE f xs = Inr ys" using isOk_obtain by blast
  show ?case by (simp add: y ys isOk_def)
qed

lemma construction_succeeds:
  assumes "isOk (getChainId env)" and "\<And>p a. isOk (encodeAbiParameters env p a)"
  shows "isOk (signerToSessionKeyValidator env args)"
proof -
  obtain c where c: "getChainId env = Inr c" using assms(1) isOk_obtain by blast
  have "isOk (mapE (\<lambda>permission. encodePermissionData env (OnePermission permission) None)
                (permissionsOf (normalisedSessionKeyData args)))"
  proof (rule mapE_isOk)
    fix x
    obtain y where "encodeAbiParameters env (OnePermission x) None = Inr y"
      using assms(2) isOk_obtain by blast
    then show "isOk (encodePermissionData env (OnePermission x) None)"
      by (simp add: encodePermissionData_def isOk_def)
  qed
  then obtain enc where enc: "mapE (\<lambda>permission. encodePermissionData env (OnePermission permission) None)
                (permissionsOf (normalisedSessionKeyData args)) = Inr enc"
    using isOk_obtain by blast
  show ?thesis
    unfolding signerToSessionKeyValidator_def Let_def c enc by (simp add: isOk_def)
qed

lemma sampleEnvDecoding_fields:
  "getChainId (sampleEnvDecoding c) = Inr 80001"
  "encodeAbiParameters (sampleEnvDecoding c) = sampleEncode"
  "decodeFunctionData (sampleEnvDecoding c) = (\<lambda>cd. Inr c)"
  "keccak256 (sampleEnvDecoding c) = sampleHash"
  by (simp_all add: sampleEnvDecoding_def sampleEnv_def)

lemma sample_construction: "isOk (signerToSessionKeyValidator (sampleEnvDecoding c) args)"
  by (rule construction_succeeds)
     (simp_all add: sampleEnvDecoding_fields sampleEncode_def isOk_def)

theorem C1_value_limit_selects_the_larger_witness:
  "isOk (signerToSessionKeyValidator (sampleEnvDecoding (ExecuteFn addressA 7 ''0xa9059cbb'' 0))
           (sampleArgs [sampleP1, sampleP2] SudoMode))
   \<and> bindE (signerToSessionKeyValidator (sampleEnvDecoding (ExecuteFn addressA 7 ''0xa9059cbb'' 0))
              (sampleArgs [sampleP1, sampleP2] SudoMode))
        (\<lambda>v. Inr (findMatchingPermissions
                     (sampleEnvDecoding (ExecuteFn addressA 7 ''0xa9059cbb'' 0)) v ''0x''))
       = Inr (Single (withDefaults sampleP1 0))
   \<and> filterPermissionsFor [withDefaults sampleP2 0] addressA ''0xa9059cbb'' 7 = Inr None
   \<and> filterPermissionsFor [withDefaults sampleP1 0] addressA ''0xa9059cbb'' 7
       = Inr (Some (withDefaults sampleP1 0))
   \<and> bindE (signerToSessionKeyValidator (sampleEnvDecoding (ExecuteFn addressA 7 ''0xa9059cbb'' 0))
              (sampleArgs [sampleP2] SudoMode))
        (\<lambda>v. Inr (findMatchingPermissions
                     (sampleEnvDecoding (ExecuteFn addressA 7 ''0xa9059cbb'' 0)) v ''0x''))
       = Inr Undefined"
proof -
  let ?env = "sampleEnvDecoding (ExecuteFn addressA 7 ''0xa9059cbb'' 0)"
  let ?args = "sampleArgs [sampleP1, sampleP2] SudoMode"
  let ?args2 = "sampleArgs [sampleP2] SudoMode"
  have ok: "isOk (signerToSessionKeyValidator ?env ?args)" by (rule sample_construction)
  then obtain v where v: "signerToSessionKeyValidator ?env ?args = Inr v"
    using isOk_obtain by blast
  have "isOk (signerToSessionKeyValidator ?env ?args2)" by (rule sample_construction)
  then obtain v2 where v2: "signerToSessionKeyValidator ?env ?args2 = Inr v2"
    using isOk_obtain by blast
  have g1: "givenPermissions ?args = [sampleP1, sampleP2]"
    by (simp add: givenPermissions_def sampleArgs_def)
  have g2: "givenPermissions ?args2 = [sampleP2]"
    by (simp add: givenPermissions_def sampleArgs_def)
  from g1 have g: "givenPermissions ?args = [sampleP1, sampleP2] \<or> givenPermissions ?args = [sampleP2, sampleP1]"
    by simp
  have t: "target sampleP1 = addressA" "target sampleP2 = addressA"
    by (simp_all add: sampleP1_def sampleP2_def samplePermission_def)
  have l: "valueLimit sampleP1 = Some 10" "valueLimit sampleP2 = Some 5"
    by (simp_all add: sampleP1_def sampleP2_def samplePermission_def)
  have s: "sig sampleP1 = sig sampleP2"
    by (simp add: sampleP1_def sampleP2_def samplePermission_def)
  have r: "rulesOf sampleP1 = []"
    by (simp add: rulesOf_def sampleP1_def samplePermission_def)
  have sel: "toLowerCase (slice ''0xa9059cbb'' 0 10) = toLowerCase (sigOf sampleP1)"
    by (simp add: slice_def sigOf_def sampleP1_def samplePermission_def)
  have dec: "decodeFunctionData ?env ''0x'' = Inr (ExecuteFn addressA 7 ''0xa9059cbb'' 0)"
    by (simp add: sampleEnvDecoding_fields)
  note inst = C1_value_limit_selects_the_larger [OF v g t l s r sel dec]
  have a: "findMatchingPermissions ?env v ''0x'' = Single (withDefaults sampleP1 0)"
    using inst g1 by simp
  have b: "filterPermissionsFor [withDefaults sampleP2 0] addressA ''0xa9059cbb'' 7 = Inr None"
    using inst by blast
  have c: "filterPermissionsFor [withDefaults sampleP1 0] addressA ''0xa9059cbb'' 7
       = Inr (Some (withDefaults sampleP1 0))"
    using inst by blast
  have d: "findMatchingPermissions ?env v2 ''0x'' = Undefined"
    using inst v2 g2 by blast
  from ok v v2 a b c d show ?thesis by simp
qed

section \<open>The matcher as a search through the sorted candidates\<close>

lemma candidates_filters:
  "candidates ps t d val
     = filter (\<lambda>p. val \<le> limitOf p)
         (filterBySignature
            (filter (\<lambda>p. toLowerCase (target p) = toLowerCase t \<or>
                         toLowerCase (target p) = toLowerCase zeroAddress) ps)
            (toLowerCase (slice d 0 10)))"
  by (induction ps) (auto simp: candidates_def filterBySignature_def sigOf_def)

lemma filterPermissionsFor_spec:
  assumes "isHex d" and "\<forall>p\<in>set ps. \<forall>r\<in>set (rulesOf p). wellFormedRule r"
  shows "filterPermissionsFor ps t d val
           = Inr (find (\<lambda>p. \<forall>r\<in>set (rulesOf p). ruleHolds d r)
                    (sort_key (\<lambda>p. - limitOf p) (candidates ps t d val)))"
proof -
  let ?T = "filter (\<lambda>p. toLowerCase (target p) = toLowerCase t \<or>
                         toLowerCase (target p) = toLowerCase zeroAddress) ps"
  let ?C = "candidates ps t d val"
  have wf: "\<forall>p\<in>set (sort_key (\<lambda>p. - limitOf p) ?C). \<forall>r\<in>set (rulesOf p). wellFormedRule r"
    using assms(2) by (auto simp: candidates_def)
  have sorted: "findPermissionByRule (sort_key (\<lambda>p. - limitOf p) ?C) d
                  = Inr (find (\<lambda>p. \<forall>r\<in>set (rulesOf p). ruleHolds d r)
                           (sort_key (\<lambda>p. - limitOf p) ?C))"
    by (rule findPermissionByRule_spec [OF assms(1) wf])
  have e1: "ps = [] \<Longrightarrow> ?C = []" by (simp add: candidates_def)
  have e2: "?T = [] \<Longrightarrow> ?C = []" by (simp add: candidates_filters filterBySignature_def)
  have body: "filterPermissionsFor ps t d val
          = (if ps = [] then Inr None
             else if ?T = [] then Inr None
             else if ?C = [] then Inr None
             else findPermissionByRule (sort_key (\<lambda>p. - limitOf p) ?C) d)"
    unfolding candidates_filters filterPermissionsFor_def filterByOperation_Call Let_def
    by simp
  show ?thesis
    unfolding body sorted using e1 e2 by auto
qed

text \<open>
  C6. A rule is evaluated on the (at most) 64 hex characters of the call data from
  position \<open>10 + offset * 2\<close> on, and on the rule's parameter, both padded to 32 bytes
  and put in lower case. On hex call data and parameters of at most 32 bytes, each of the
  six operators then decides as the comparison of the two words read as big-endian
  unsigned integers below \<open>2 ^ 256\<close>; a permission without rules passes;
  \<open>findPermissionByRule\<close> returns the first permission of the list all of whose
  rules hold, or none; and the match of a call is the first such permission among the
  candidates (target, selector, value limit) sorted by descending value limit.
\<close>

theorem C6_rules_compare_unsigned_words:
  assumes "isHex d"
    and "\<forall>p\<in>set ps. \<forall>r\<in>set (rulesOf p). wellFormedRule r"
  shows "findPermissionByRule ps d
           = Inr (find (\<lambda>p. \<forall>r\<in>set (rulesOf p). ruleHolds d r) ps)
       \<and> (\<forall>p\<in>set ps. \<forall>r\<in>set (rulesOf p).
            getFormattedHex (''0x'' @ slice d (10 + offset r * 2) (10 + offset r * 2 + 64))
              = Inr (''0x'' @ word64 (slice d (10 + offset r * 2) (10 + offset r * 2 + 64)))
          \<and> getFormattedHex (param r) = Inr (''0x'' @ word64 (drop 2 (param r)))
          \<and> evaluateRuleCondition
                (''0x'' @ word64 (slice d (10 + offset r * 2) (10 + offset r * 2 + 64)))
                (''0x'' @ word64 (drop 2 (param r))) (condition r)
              = compareUint (condition r) (wordAt d (offset r)) (hexValue (drop 2 (param r)))
          \<and> wordAt d (offset r) < 2 ^ 256
          \<and> hexValue (drop 2 (param r)) < 2 ^ 256)
       \<and> (\<forall>p\<in>set ps. rulesOf p = [] \<longrightarrow> rulesPass (rulesOf p) d = Inr True)
       \<and> filterPermissionsFor ps t d val
           = Inr (find (\<lambda>p. \<forall>r\<in>set (rulesOf p). ruleHolds d r)
                    (sort_key (\<lambda>p. - limitOf p) (candidates ps t d val)))"
proof (intro conjI ballI impI)
  show "findPermissionByRule ps d = Inr (find (\<lambda>p. \<forall>r\<in>set (rulesOf p). ruleHolds d r) ps)"
    by (rule findPermissionByRule_spec [OF assms])
next
  show "filterPermissionsFor ps t d val
           = Inr (find (\<lambda>p. \<forall>r\<in>set (rulesOf p). ruleHolds d r)
                    (sort_key (\<lambda>p. - limitOf p) (candidates ps t d val)))"
    by (rule filterPermissionsFor_spec [OF assms])
next
  fix p r assume "p \<in> set ps" "r \<in> set (rulesOf p)"
  then have wf: "wellFormedRule r" using assms(2) by blast
  let ?w = "slice d (10 + offset r * 2) (10 + offset r * 2 + 64)"
  show "getFormattedHex (''0x'' @ ?w) = Inr (''0x'' @ word64 ?w)"
    by (rule rule_step(1) [OF assms(1) wf])
  show "getFormattedHex (param r) = Inr (''0x'' @ word64 (drop 2 (param r)))"
    by (rule rule_step(2) [OF assms(1) wf])
  show "evaluateRuleCondition (''0x'' @ word64 ?w) (''0x'' @ word64 (drop 2 (param r)))
          (condition r)
        = compareUint (condition r) (wordAt d (offset r)) (hexValue (drop 2 (param r)))"
    using rule_step(3) [OF assms(1) wf] by (simp only: ruleHolds_def)
  show "wordAt d (offset r) < 2 ^ 256"
    unfolding wordAt_def by (rule hexValue_word_bound [OF slice_hex(2) [OF assms(1)]])
  show "hexValue (drop 2 (param r)) < 2 ^ 256"
  proof (rule hexValue_word_bound)
    have "length (param r) \<le> 66" using wf by (simp add: wellFormedRule_def)
    then show "length (drop 2 (param r)) \<le> 64" by simp
  qed
next
  fix p assume "rulesOf p = []"
  then show "rulesPass (rulesOf p) d = Inr True" by simp
qed

theorem C6_rules_compare_unsigned_words_witness:
  "isHex sampleTransfer
   \<and> list_all (\<lambda>p. list_all wellFormedRule (rulesOf p)) sampleRulePermissions
   \<and> wordAt sampleTransfer 32 = 100
   \<and> findPermissionByRule sampleRulePermissions sampleTransfer
       = Inr (Some (sampleRulePermissions ! 0))
   \<and> findPermissionByRule (rev sampleRulePermissions) sampleTransfer
       = Inr (Some (sampleRulePermissions ! 2))
   \<and> filterPermissionsFor sampleRulePermissions addressA sampleTransfer 3
       = Inr (Some (sampleRulePermissions ! 0))"
proof -
  have h1: "isHex sampleTransfer" by code_simp
  have h2': "list_all (\<lambda>p. list_all wellFormedRule (rulesOf p)) sampleRulePermissions"
    by code_simp
  then have h2: "\<forall>p\<in>set sampleRulePermissions. \<forall>r\<in>set (rulesOf p). wellFormedRule r"
    by (simp only: list_all_iff)
  then have h3: "\<forall>p\<in>set (rev sampleRulePermissions). \<forall>r\<in>set (rulesOf p). wellFormedRule r"
    by simp
  have w: "wordAt sampleTransfer 32 = 100" by code_simp
  have f: "find (\<lambda>p. \<forall>r\<in>set (rulesOf p). ruleHolds sampleTransfer r) sampleRulePermissions
             = Some (sampleRulePermissions ! 0)"
    by code_simp
  have f': "find (\<lambda>p. \<forall>r\<in>set (rulesOf p). ruleHolds sampleTransfer r)
              (rev sampleRulePermissions) = Some (sampleRulePermissions ! 2)"
    by code_simp
  have g: "find (\<lambda>p. \<forall>r\<in>set (rulesOf p). ruleHolds sampleTransfer r)
             (sort_key (\<lambda>p. - limitOf p) (candidates sampleRulePermissions addressA sampleTransfer 3))
             = Some (sampleRulePermissions ! 0)"
    by code_simp
  note inst = C6_rules_compare_unsigned_words [OF h1 h2, of addressA 3]
  note inst' = C6_rules_compare_unsigned_words [OF h1 h3, of addressA 3]
  have a: "findPermissionByRule sampleRulePermissions sampleTransfer
             = Inr (Some (sampleRulePermissions ! 0))"
    using inst f by simp
  have b: "findPermissionByRule (rev sampleRulePermissions) sampleTransfer
             = Inr (Some (sampleRulePermissions ! 2))"
    using inst' f' by simp
  have c: "filterPermissionsFor sampleRulePermissions addressA sampleTransfer 3
             = Inr (Some (sampleRulePermissions ! 0))"
    using inst g by simp
  from h1 h2' w a b c show ?thesis by simp
qed

section \<open>Permissions up to their operation tags\<close>

lemma untag_fields:
  "target (untag p) = target p"
  "sig (untag p) = sig p"
  "sigOf (untag p) = sigOf p"
  "limitOf (untag p) = limitOf p"
  "rulesOf (untag p) = rulesOf p"
  "index (untag p) = index p"
  by (simp_all add: untag_def sigOf_def limitOf_def rulesOf_def)

lemma insort_key_untag:
  "map untag (insort_key (\<lambda>p. k (untag p)) x xs) = insort_key k (untag x) (map untag xs)"
  by (induction xs) simp_all

lemma sort_key_untag:
  "map untag (sort_key (\<lambda>p. k (untag p)) xs) = sort_key k (map untag xs)"
  by (induction xs) (simp_all add: insort_key_untag)

lemma filter_untag:
  "map untag (filter (\<lambda>p. Q (untag p)) xs) = filter Q (map untag xs)"
  by (induction xs) simp_all

lemma findPermissionByRule_untag:
  "map_sum id (map_option untag) (findPermissionByRule ps d) = findPermissionByRule (map untag ps) d"
proof (induction ps)
  case Nil show ?case by simp
next
  case (Cons p ps)
  show ?case
  proof (cases "rulesPass (rulesOf p) d")
    case (Inl e) then show ?thesis by (simp add: untag_fields)
  next
    case (Inr b) with Cons show ?thesis by (cases b) (simp_all add: untag_fields)
  qed
qed

lemma filterPermissionsFor_untag:
  "map_sum id (map_option untag) (filterPermissionsFor ps t d val)
     = filterPermissionsFor (map untag ps) t d val"
proof -
  let ?T = "\<lambda>p. toLowerCase (target p) = toLowerCase t \<or>
                 toLowerCase (target p) = toLowerCase zeroAddress"
  let ?S = "\<lambda>p. toLowerCase (case sig p of Some s \<Rightarrow> s | None \<Rightarrow> emptySelector)
                 = toLowerCase (slice d 0 10)"
  let ?V = "\<lambda>p. val \<le> limitOf p"
  let ?K = "\<lambda>p. - limitOf p"
  have T: "map untag (filter ?T xs) = filter ?T (map untag xs)" for xs
    using filter_untag [of ?T xs] by (simp add: untag_fields)
  have S: "map untag (filter ?S xs) = filter ?S (map untag xs)" for xs
    using filter_untag [of ?S xs] by (simp add: untag_fields)
  have V: "map untag (filter ?V xs) = filter ?V (map untag xs)" for xs
    using filter_untag [of ?V xs] by (simp add: untag_fields)
  have K: "map untag (sort_key ?K xs) = sort_key ?K (map untag xs)" for xs
    using sort_key_untag [of ?K xs] by (simp add: untag_fields)
  have e: "(map untag xs = []) = (xs = [])" for xs by simp
  have chain: "map untag (sort_key ?K (filter ?V (filter ?S (filter ?T ps))))
                 = sort_key ?K (filter ?V (filter ?S (filter ?T (map untag ps))))"
    by (simp only: K V S T)
  have vs: "(filter ?V (filter ?S (filter ?T (map untag ps))) = [])
              = (filter ?V (filter ?S (filter ?T ps)) = [])"
    using e [of "filter ?V (filter ?S (filter ?T ps))"] by (simp only: V S T)
  have ts: "(filter ?T (map untag ps) = []) = (filter ?T ps = [])"
    using e [of "filter ?T ps"] by (simp only: T)
  show ?thesis
    unfolding filterPermissionsFor_def filterByOperation_Call filterBySignature_def Let_def
    using chain vs ts findPermissionByRule_untag [of "sort_key ?K (filter ?V (filter ?S (filter ?T ps)))" d]
    by (simp del: filter_filter)
qed

lemma mapE_untag:
  assumes "\<And>x. map_sum id (map_option untag) (f x) = g x"
  shows "map_sum id (map (map_option untag)) (mapE f xs) = mapE g xs"
proof (induction xs)
  case Nil show ?case by simp
next
  case (Cons x xs)
  show ?case
  proof (cases "f x")
    case (Inl e)
    with assms [of x] have "g x = Inl e" by simp
    with Inl show ?thesis by simp
  next
    case (Inr y)
    with assms [of x] have gx: "g x = Inr (map_option untag y)" by simp
    show ?thesis
    proof (cases "mapE f xs")
      case (Inl e)
      with Cons have "mapE g xs = Inl e" by simp
      with Inl Inr gx show ?thesis by simp
    next
      case r: (Inr ys)
      with Cons have "mapE g xs = Inr (map (map_option untag) ys)" by simp
      with r Inr gx show ?thesis by simp
    qed
  qed
qed

lemma filterPermissions_untag:
  "map_sum id (map_option (map untag)) (filterPermissions ps ts ds vals)
     = filterPermissions (map untag ps) ts ds vals"
proof -
  let ?f = "\<lambda>(tgt, d, v). filterPermissionsFor ps tgt d v"
  let ?g = "\<lambda>(tgt, d, v). filterPermissionsFor (map untag ps) tgt d v"
  have fg: "map_sum id (map_option untag) (?f x) = ?g x" for x
    by (cases x) (simp add: filterPermissionsFor_untag)
  have m: "map_sum id (map (map_option untag)) (mapE ?f xs) = mapE ?g xs" for xs
    by (rule mapE_untag) (rule fg)
  have all: "list_all (\<lambda>p. p \<noteq> None) (map (map_option untag) ys) = list_all (\<lambda>p. p \<noteq> None) ys" for ys
    by (induction ys) (simp_all del: not_None_eq)
  have the: "list_all (\<lambda>p. p \<noteq> None) ys \<Longrightarrow> map the (map (map_option untag) ys) = map untag (map the ys)" for ys
    by (induction ys) (auto simp del: not_None_eq)
  show ?thesis
  proof (cases "mapE ?f (zip ts (zip ds vals))")
    case (Inl e)
    with m [of "zip ts (zip ds vals)"] have "mapE ?g (zip ts (zip ds vals)) = Inl e" by simp
    with Inl show ?thesis by (simp add: filterPermissions_def)
  next
    case (Inr ys)
    with m [of "zip ts (zip ds vals)"]
    have "mapE ?g (zip ts (zip ds vals)) = Inr (map (map_option untag) ys)" by simp
    with Inr show ?thesis
      by (auto simp: filterPermissions_def all list_all_iff option.map_sel simp del: not_None_eq)
  qed
qed

section \<open>Errors that are never NoMatchingPermission\<close>

lemma bindE_not_error:
  assumes "m \<noteq> Inl e" and "\<And>x. f x \<noteq> Inl e"
  shows "bindE m f \<noteq> Inl e"
  using assms by (cases m) simp_all

lemma ext_not_NoMatching: "ext x \<noteq> Inl NoMatchingPermission"
  by (cases x) simp_all

lemma pad_not_NoMatching: "pad h n \<noteq> Inl NoMatchingPermission"
  by (simp add: pad_def Let_def)

lemma encodePermissionData_not_NoMatching:
  "encodePermissionData env a pr \<noteq> Inl NoMatchingPermission"
  by (cases pr) (simp_all add: encodePermissionData_def ext_not_NoMatching)

lemma mapE_not_error:
  assumes "\<And>x. f x \<noteq> Inl e"
  shows "mapE f xs \<noteq> Inl e"
proof (induction xs)
  case Nil show ?case by simp
next
  case (Cons x xs)
  with assms [of x] show ?case by (cases "f x"; cases "mapE f xs") simp_all
qed

lemma proofData_NoMatching_iff:
  "(getEncodedPermissionProofData env v cd = Inl NoMatchingPermission)
     = (findMatchingPermissions env v cd = Undefined \<and> getHexRoot (merkleTree v) \<noteq> zeroWord)"
proof (cases "findMatchingPermissions env v cd = Undefined \<and> getHexRoot (merkleTree v) \<noteq> zeroWord")
  case True
  then show ?thesis by (simp add: getEncodedPermissionProofData_def)
next
  case False
  let ?enc = "\<lambda>permission. encodePermissionData env (OnePermission permission) None"
  have batch: "bindE (mapE ?enc found) g \<noteq> Inl NoMatchingPermission"
    if "\<And>x. g x \<noteq> Inl NoMatchingPermission" for found and g :: "hex list \<Rightarrow> error + 'b"
    by (rule bindE_not_error [OF mapE_not_error that]) (rule encodePermissionData_not_NoMatching)
  have none: "(case findMatchingPermissions env v cd of
                 Batch found \<Rightarrow> bindE (mapE ?enc found) (\<lambda>encodedPerms. Inr ''0x'')
               | _ \<Rightarrow> Inr ''0x'') \<noteq> Inl NoMatchingPermission"
    by (cases "findMatchingPermissions env v cd") (simp_all add: batch)
  have some: "bindE (encodePermissionData env arg None) (\<lambda>encodedPermissionData.
            bindE (case findMatchingPermissions env v cd of
                     Batch found \<Rightarrow>
                       bindE (mapE ?enc found)
                         (\<lambda>encodedPerms.
                            Inr (Proofs (map (\<lambda>perm. getHexProof (merkleTree v)
                                                        (keccak256 env perm)) encodedPerms)))
                   | _ \<Rightarrow> Inr (Proof (getHexProof (merkleTree v)
                                         (keccak256 env encodedPermissionData))))
              (\<lambda>merkleProof. encodePermissionData env arg (Some merkleProof)))
          \<noteq> Inl NoMatchingPermission" for arg
  proof (intro bindE_not_error encodePermissionData_not_NoMatching)
    fix x
    show "(case findMatchingPermissions env v cd of
            Batch found \<Rightarrow> bindE (mapE ?enc found)
               (\<lambda>encodedPerms. Inr (Proofs (map (\<lambda>perm. getHexProof (merkleTree v) (keccak256 env perm)) encodedPerms)))
          | _ \<Rightarrow> Inr (Proof (getHexProof (merkleTree v) (keccak256 env x))))
          \<noteq> Inl NoMatchingPermission"
      by (cases "findMatchingPermissions env v cd") (simp_all add: batch)
  qed
  have "getEncodedPermissionProofData env v cd \<noteq> Inl NoMatchingPermission"
    unfolding getEncodedPermissionProofData_def Let_def using False none some
    by (simp split: option.splits)
  with False show ?thesis by simp
qed

section \<open>The Merkle tree of a validator\<close>

lemma bufferify_zeroWord: "bufferify zeroWord = zeroWord"
  by (simp add: bufferify_def zeroWord_def toLowerCase_def toLowerChar_def)

lemma sentinel_tree:
  "newMerkleTree H [zeroWord] \<lparr> hashLeaves = False, sortPairs = sp, complete = c \<rparr>
     = \<lparr> leaves = [zeroWord], layers = [[zeroWord]] \<rparr>"
  by (simp add: newMerkleTree_def bufferify_zeroWord Let_def createHashes.simps [of H sp "[zeroWord]"])

lemma sentinel_root:
  "getHexRoot (newMerkleTree H [zeroWord] \<lparr> hashLeaves = False, sortPairs = sp, complete = c \<rparr>)
     = zeroWord"
  by (simp add: sentinel_tree getHexRoot_def)

lemma pairLayer_nodes:
  "\<forall>y. P (bufferify (H y)) \<Longrightarrow> \<forall>x\<in>set nodes. P x \<Longrightarrow> \<forall>x\<in>set (pairLayer H sp nodes). P x"
  by (induction H sp nodes rule: pairLayer.induct) simp_all

lemma pairLayer_nonempty: "nodes \<noteq> [] \<Longrightarrow> pairLayer H sp nodes \<noteq> []"
  by (induction H sp nodes rule: pairLayer.induct) simp_all

lemma createHashes_last:
  "\<forall>y. P (bufferify (H y)) \<Longrightarrow> nodes \<noteq> [] \<Longrightarrow> \<forall>x\<in>set nodes. P x \<Longrightarrow>
     createHashes H sp nodes \<noteq> [] \<and> last (createHashes H sp nodes) \<noteq> []
     \<and> (\<forall>x\<in>set (last (createHashes H sp nodes)). P x)"
proof (induction H sp nodes rule: createHashes.induct)
  case (1 H sp nodes)
  show ?case
  proof (cases "1 < length nodes")
    case True
    have ne: "pairLayer H sp nodes \<noteq> []" using "1.prems"(2) by (rule pairLayer_nonempty)
    have al: "\<forall>x\<in>set (pairLayer H sp nodes). P x"
      using "1.prems"(1,3) by (rule pairLayer_nodes)
    have ih: "createHashes H sp (pairLayer H sp nodes) \<noteq> [] \<and>
              last (createHashes H sp (pairLayer H sp nodes)) \<noteq> [] \<and>
              (\<forall>x\<in>set (last (createHashes H sp (pairLayer H sp nodes))). P x)"
      using "1.IH" [OF True "1.prems"(1) ne al] .
    have "createHashes H sp nodes = nodes # createHashes H sp (pairLayer H sp nodes)"
      using True by (subst createHashes.simps) simp
    with ih show ?thesis by simp
  next
    case False
    then have "createHashes H sp nodes = [nodes]" by (subst createHashes.simps) simp
    with "1.prems" show ?thesis by simp
  qed
qed

lemma hashed_root:
  assumes "\<forall>y. bufferify (H y) \<noteq> zeroWord" and "ls \<noteq> []"
  shows "getHexRoot (newMerkleTree H ls \<lparr> hashLeaves = True, sortPairs = sp, complete = c \<rparr>)
           \<noteq> zeroWord"
proof -
  let ?nodes = "map bufferify (map H ls)"
  have ne: "?nodes \<noteq> []" using assms(2) by simp
  have al: "\<forall>x\<in>set ?nodes. x \<noteq> zeroWord" using assms(1) by auto
  from createHashes_last [of "\<lambda>x. x \<noteq> zeroWord" H ?nodes sp, OF assms(1) ne al]
  have l: "createHashes H sp ?nodes \<noteq> []" "last (createHashes H sp ?nodes) \<noteq> []"
    "\<forall>x\<in>set (last (createHashes H sp ?nodes)). x \<noteq> zeroWord"
    by simp_all
  obtain root rest where r: "last (createHashes H sp ?nodes) = root # rest"
    using l(2) by (cases "last (createHashes H sp ?nodes)") auto
  obtain l0 ls0 where c: "createHashes H sp ?nodes = l0 # ls0"
    using l(1) by (cases "createHashes H sp ?nodes") auto
  have "root \<noteq> zeroWord" using l(3) r by simp
  moreover have "getHexRoot (newMerkleTree H ls \<lparr> hashLeaves = True, sortPairs = sp, complete = c \<rparr>) = root"
    unfolding getHexRoot_def newMerkleTree_def Let_def using r c by simp
  ultimately show ?thesis by simp
qed

lemma mapE_length: "mapE f xs = Inr ys \<Longrightarrow> length ys = length xs"
proof (induction xs arbitrary: ys)
  case Nil then show ?case by simp
next
  case (Cons x xs)
  then show ?case by (cases "f x"; cases "mapE f xs") auto
qed

lemma normalisedPermissions_empty: "(normalisedPermissions args = []) = (givenPermissions args = [])"
  by (simp add: normalisedPermissions_def)

lemma validator_tree:
  assumes "signerToSessionKeyValidator env args = Inr v"
  shows "givenPermissions args = [] \<Longrightarrow>
           merkleTree v = \<lparr> leaves = [zeroWord], layers = [[zeroWord]] \<rparr>"
    and "givenPermissions args \<noteq> [] \<Longrightarrow>
           \<exists>ls. ls \<noteq> [] \<and> merkleTree v = newMerkleTree (keccak256 env) ls
                    \<lparr> hashLeaves = True, sortPairs = True, complete = False \<rparr>"
proof -
  obtain c enc where c: "getChainId env = Inr c"
    and enc: "mapE (\<lambda>permission. encodePermissionData env (OnePermission permission) None)
                (normalisedPermissions args) = Inr enc"
    and tree: "merkleTree v =
            (if normalisedPermissions args \<noteq> []
             then newMerkleTree (keccak256 env) (if length enc = 1 then enc @ [enc ! 0] else enc)
                    \<lparr> hashLeaves = True, sortPairs = True, complete = False \<rparr>
             else newMerkleTree (keccak256 env) [zeroWord]
                    \<lparr> hashLeaves = False, sortPairs = False, complete = True \<rparr>)"
    using assms unfolding signerToSessionKeyValidator_def Let_def permissionsOf_normalised
    by (cases "getChainId env";
        cases "mapE (\<lambda>permission. encodePermissionData env (OnePermission permission) None)
                (normalisedPermissions args)") auto
  show "merkleTree v = \<lparr> leaves = [zeroWord], layers = [[zeroWord]] \<rparr>"
    if "givenPermissions args = []"
    using that tree by (simp add: normalisedPermissions_empty sentinel_tree)
  show "\<exists>ls. ls \<noteq> [] \<and> merkleTree v = newMerkleTree (keccak256 env) ls
                    \<lparr> hashLeaves = True, sortPairs = True, complete = False \<rparr>"
    if "givenPermissions args \<noteq> []"
  proof -
    have n: "normalisedPermissions args \<noteq> []" using that by (simp add: normalisedPermissions_empty)
    have "length enc = length (normalisedPermissions args)" using enc by (rule mapE_length)
    with n have "enc \<noteq> []" by auto
    then have "(if length enc = 1 then enc @ [enc ! 0] else enc) \<noteq> []" by simp
    with tree n show ?thesis by auto
  qed
qed

lemma wordShaped_zeroWord: "wordShaped zeroWord"
  by (simp add: wordShaped_def zeroWord_def)

lemma wordShaped_replace0x: "wordShaped x \<Longrightarrow> replace0x x = drop 2 x \<and> length (replace0x x) = 64"
proof -
  assume w: "wordShaped x"
  then obtain cs where x: "x = CHR ''0'' # CHR ''x'' # cs"
    by (cases x; cases "tl x") (auto simp: wordShaped_def)
  with w show ?thesis by (simp add: wordShaped_def)
qed

lemma pad_word: "wordShaped x \<Longrightarrow> pad x 32 = Inr x"
proof -
  assume w: "wordShaped x"
  then obtain cs where x: "x = CHR ''0'' # CHR ''x'' # cs"
    by (cases x; cases "tl x") (auto simp: wordShaped_def)
  with w show ?thesis by (simp add: wordShaped_def pad_def)
qed

lemma hashed_root_prop:
  assumes "\<forall>y. P (bufferify (H y))" and "ls \<noteq> []"
  shows "P (getHexRoot (newMerkleTree H ls \<lparr> hashLeaves = True, sortPairs = sp, complete = c \<rparr>))"
proof -
  let ?nodes = "map bufferify (map H ls)"
  have ne: "?nodes \<noteq> []" using assms(2) by simp
  have al: "\<forall>x\<in>set ?nodes. P x" using assms(1) by auto
  from createHashes_last [of P H ?nodes sp, OF assms(1) ne al]
  have l: "createHashes H sp ?nodes \<noteq> []" "last (createHashes H sp ?nodes) \<noteq> []"
    "\<forall>x\<in>set (last (createHashes H sp ?nodes)). P x"
    by simp_all
  obtain root rest where r: "last (createHashes H sp ?nodes) = root # rest"
    using l(2) by (cases "last (createHashes H sp ?nodes)") auto
  obtain l0 ls0 where c: "createHashes H sp ?nodes = l0 # ls0"
    using l(1) by (cases "createHashes H sp ?nodes") auto
  have "P root" using l(3) r by simp
  moreover have "getHexRoot (newMerkleTree H ls \<lparr> hashLeaves = True, sortPairs = sp, complete = c \<rparr>) = root"
    unfolding getHexRoot_def newMerkleTree_def Let_def using r c by simp
  ultimately show ?thesis by simp
qed

lemma validator_root_word:
  assumes "signerToSessionKeyValidator env args = Inr v"
    and "\<forall>y. wordShaped (bufferify (keccak256 env y))"
  shows "wordShaped (getHexRoot (merkleTree v))"
proof (cases "givenPermissions args = []")
  case True
  from validator_tree(1) [OF assms(1) True] show ?thesis
    by (simp add: getHexRoot_def wordShaped_zeroWord)
next
  case False
  from validator_tree(2) [OF assms(1) False] hashed_root_prop [of wordShaped, OF assms(2)]
  show ?thesis by auto
qed

lemma validator_built:
  assumes "signerToSessionKeyValidator env args = Inr v"
  shows "\<exists>chainId tree. ext (getChainId env) = Inr chainId \<and>
     v = \<lparr> v_signer = signer args,
            v_entryPoint = (case entryPoint args of Some x \<Rightarrow> x | None \<Rightarrow> ENTRYPOINT_V0_6),
            v_validatorAddress =
              (case validatorAddress args of Some x \<Rightarrow> x
               | None \<Rightarrow> SESSION_KEY_VALIDATOR_ADDRESS env),
            v_sessionKey = sessionKey (validatorData args),
            v_sessionKeyData = normalisedSessionKeyData args,
            v_executorData = (case executorData args of
               Some x \<Rightarrow> x
             | None \<Rightarrow> \<lparr> executor = zeroAddress,
                         selector = getFunctionSelector env
                                      ''execute(address, uint256, bytes, uint8)'',
                         exec_validUntil = 0, exec_validAfter = 0 \<rparr>),
            v_mode = (case mode args of Some x \<Rightarrow> x | None \<Rightarrow> EnableMode),
            v_chainId = chainId,
            merkleTree = tree \<rparr>"
proof (cases "ext (getChainId env)")
  case (Inl e)
  with assms show ?thesis by (simp add: signerToSessionKeyValidator_def Let_def)
next
  case c: (Inr chainId)
  show ?thesis
  proof (cases "mapE (\<lambda>permission. encodePermissionData env (OnePermission permission) None)
               (permissionsOf (normalisedSessionKeyData args))")
    case (Inl e)
    with assms c show ?thesis by (simp add: signerToSessionKeyValidator_def Let_def)
  next
    case (Inr enc)
    from assms [symmetric] show ?thesis
      unfolding signerToSessionKeyValidator_def Let_def c Inr bindE_simps
      by (intro exI [of _ chainId] exI conjI refl) (simp only: sum.inject)
  qed
qed

lemma validator_data_fields:
  assumes "signerToSessionKeyValidator env args = Inr v"
  shows "v_validatorAddress v
           = (case validatorAddress args of Some x \<Rightarrow> x
              | None \<Rightarrow> SESSION_KEY_VALIDATOR_ADDRESS env)"
    and "v_entryPoint v = (case entryPoint args of Some x \<Rightarrow> x | None \<Rightarrow> ENTRYPOINT_V0_6)"
    and "ext (getChainId env) = Inr (v_chainId v)"
    and "v_executorData v
           = (case executorData args of
               Some x \<Rightarrow> x
             | None \<Rightarrow> \<lparr> executor = zeroAddress,
                         selector = getFunctionSelector env
                                      ''execute(address, uint256, bytes, uint8)'',
                         exec_validUntil = 0, exec_validAfter = 0 \<rparr>)"
proof -
  from validator_built [OF assms] obtain chainId tree where
    c: "ext (getChainId env) = Inr chainId" and v: "v = \<lparr> v_signer = signer args,
            v_entryPoint = (case entryPoint args of Some x \<Rightarrow> x | None \<Rightarrow> ENTRYPOINT_V0_6),
            v_validatorAddress =
              (case validatorAddress args of Some x \<Rightarrow> x
               | None \<Rightarrow> SESSION_KEY_VALIDATOR_ADDRESS env),
            v_sessionKey = sessionKey (validatorData args),
            v_sessionKeyData = normalisedSessionKeyData args,
            v_executorData = (case executorData args of
               Some x \<Rightarrow> x
             | None \<Rightarrow> \<lparr> executor = zeroAddress,
                         selector = getFunctionSelector env
                                      ''execute(address, uint256, bytes, uint8)'',
                         exec_validUntil = 0, exec_validAfter = 0 \<rparr>),
            v_mode = (case mode args of Some x \<Rightarrow> x | None \<Rightarrow> EnableMode),
            v_chainId = chainId,
            merkleTree = tree \<rparr>" by blast
  show "v_validatorAddress v
           = (case validatorAddress args of Some x \<Rightarrow> x
              | None \<Rightarrow> SESSION_KEY_VALIDATOR_ADDRESS env)" by (subst v) simp
  show "v_entryPoint v = (case entryPoint args of Some x \<Rightarrow> x | None \<Rightarrow> ENTRYPOINT_V0_6)"
    by (subst v) simp
  show "ext (getChainId env) = Inr (v_chainId v)" unfolding c by (subst v) simp
  show "v_executorData v
           = (case executorData args of
               Some x \<Rightarrow> x
             | None \<Rightarrow> \<lparr> executor = zeroAddress,
                         selector = getFunctionSelector env
                                      ''execute(address, uint256, bytes, uint8)'',
                         exec_validUntil = 0, exec_validAfter = 0 \<rparr>)" by (subst v) simp
qed

lemma validator_fields:
  assumes "signerToSessionKeyValidator env args = Inr v"
  shows "v_mode v = (case mode args of Some x \<Rightarrow> x | None \<Rightarrow> EnableMode)"
    and "v_signer v = signer args"
    and "v_sessionKey v = sessionKey (validatorData args)"
  using assms unfolding signerToSessionKeyValidator_def Let_def
  by (auto simp: bindE_Inr_iff)

section \<open>The matcher ignores operation tags\<close>

lemma untag_withDefaults: "untag (withDefaults p i) = untag (withDefaults (untag p) i)"
  by (simp add: untag_def withDefaults_def)

lemma normalised_untag:
  "map untag (normalisedPermissions args)
     = map (\<lambda>(q, i). untag (withDefaults q i))
         (zip (map untag (givenPermissions args))
              [0 ..< length (map untag (givenPermissions args))])"
proof -
  have "map untag (map (\<lambda>(p, i). withDefaults p i) (zip ps ns))
          = map (\<lambda>(q, i). untag (withDefaults q i)) (zip (map untag ps) ns)" for ps and ns :: "nat list"
  proof (induction ps arbitrary: ns)
    case Nil show ?case by simp
  next
    case (Cons p ps)
    show ?case
    proof (cases ns)
      case Nil then show ?thesis by simp
    next
      case (Cons n ns')
      with Cons.IH [of ns'] show ?thesis using untag_withDefaults [of p n] by simp
    qed
  qed
  then show ?thesis by (simp add: normalisedPermissions_def)
qed

lemma findMatchingPermissions_untag:
  assumes "map untag (permissionsOf (v_sessionKeyData v)) = map untag (permissionsOf (v_sessionKeyData v'))"
  shows "untagMatching (findMatchingPermissions env v cd) = untagMatching (findMatchingPermissions env v' cd)"
proof -
  have key: "untagMatching (case filterPermissions ps ts ds vals of
                 Inr (Some (permission # x)) \<Rightarrow> Single permission | _ \<Rightarrow> Undefined)
           = (case filterPermissions (map untag ps) ts ds vals of
                 Inr (Some (permission # x)) \<Rightarrow> Single permission | _ \<Rightarrow> Undefined)"
    for ps ts ds vals
    unfolding filterPermissions_untag [symmetric]
    by (cases "filterPermissions ps ts ds vals") (auto split: option.splits list.splits)
  have keyb: "untagMatching (case filterPermissions ps ts ds vals of
                 Inr (Some found) \<Rightarrow> Batch found | _ \<Rightarrow> Undefined)
           = (case filterPermissions (map untag ps) ts ds vals of
                 Inr (Some found) \<Rightarrow> Batch found | _ \<Rightarrow> Undefined)"
    for ps ts ds vals
    unfolding filterPermissions_untag [symmetric]
    by (cases "filterPermissions ps ts ds vals") (auto split: option.splits)
  show ?thesis
  proof (cases "decodeFunctionData env cd")
    case (Inl m) then show ?thesis by (simp add: findMatchingPermissions_def)
  next
    case (Inr c)
    show ?thesis
      unfolding findMatchingPermissions_def Inr
      by (cases c) (simp_all add: key keyb assms del: untagMatching.simps)
  qed
qed

lemma untagMatching_Undefined: "(untagMatching m = Undefined) = (m = Undefined)"
  by (cases m) simp_all

lemma signUserOperation_steps:
  "sessionKey_signUserOperation env v op pes
     = bindE (signingPrefix env v op pes) (\<lambda>(vs, fs).
         bindE (getEncodedPermissionProofData env v (callData op)) (\<lambda>pd.
           Inr (concatHex [vs, v_sessionKey v, fs, pd])))"
proof -
  let ?h = "getUserOperationHash env (op \<lparr> signature := ''0x'' \<rparr>) (v_entryPoint v) (v_chainId v)"
  show ?thesis
  proof (cases "ext (signMessage env (v_signer v) ?h)")
    case (Inl e)
    then show ?thesis by (simp add: sessionKey_signUserOperation_def signingPrefix_def Let_def)
  next
    case sg: (Inr sg)
    show ?thesis
    proof (cases "fixSignedData env sg")
      case (Inl e)
      with sg show ?thesis by (simp add: sessionKey_signUserOperation_def signingPrefix_def Let_def)
    next
      case fs: (Inr fs)
      show ?thesis
        by (cases "getValidatorSignature env v (sender op) pes")
           (simp_all add: sessionKey_signUserOperation_def signingPrefix_def Let_def sg fs)
    qed
  qed
qed

lemma createHashes_all:
  "\<forall>y. P (bufferify (H y)) \<Longrightarrow> \<forall>x\<in>set nodes. P x \<Longrightarrow>
     \<forall>layer\<in>set (createHashes H sp nodes). \<forall>x\<in>set layer. P x"
proof (induction H sp nodes rule: createHashes.induct)
  case (1 H sp nodes)
  show ?case
  proof (cases "1 < length nodes")
    case True
    have al: "\<forall>x\<in>set (pairLayer H sp nodes). P x"
      using "1.prems"(1,2) by (rule pairLayer_nodes)
    have ih: "\<forall>layer\<in>set (createHashes H sp (pairLayer H sp nodes)). \<forall>x\<in>set layer. P x"
      using "1.IH" [OF True "1.prems"(1) al] .
    have "createHashes H sp nodes = nodes # createHashes H sp (pairLayer H sp nodes)"
      using True by (subst createHashes.simps) simp
    with ih "1.prems"(2) show ?thesis by simp
  next
    case False
    then have "createHashes H sp nodes = [nodes]" by (subst createHashes.simps) simp
    with "1.prems" show ?thesis by simp
  qed
qed

lemma proofOf_nodes:
  "\<forall>layer\<in>set ls. \<forall>x\<in>set layer. P x \<Longrightarrow> \<forall>x\<in>set (proofOf ls i). P x"
proof (induction ls arbitrary: i)
  case Nil show ?case by simp
next
  case (Cons layer rest)
  have r: "\<forall>x\<in>set (proofOf rest j). P x" for j
    using Cons.IH [of j] Cons.prems by simp
  have l: "k < length layer \<Longrightarrow> P (layer ! k)" for k
    using Cons.prems by simp
  show ?case using r [of "i div 2"] l by (auto simp: Let_def)
qed

lemma getHexProof_nodes:
  "\<forall>layer\<in>set (layers tree). \<forall>x\<in>set layer. P x \<Longrightarrow> \<forall>x\<in>set (getHexProof tree leaf). P x"
  unfolding getHexProof_def
  by (cases "lastIndexOf (bufferify leaf) (leaves tree) 0 None") (simp_all add: proofOf_nodes)

lemma validator_proof_words:
  assumes "signerToSessionKeyValidator env args = Inr v"
    and "\<forall>y. wordShaped (bufferify (keccak256 env y))"
  shows "list_all wordShaped (getHexProof (merkleTree v) leaf)"
proof -
  have "\<forall>layer\<in>set (layers (merkleTree v)). \<forall>x\<in>set layer. wordShaped x"
  proof (cases "givenPermissions args = []")
    case True
    from validator_tree(1) [OF assms(1) True] show ?thesis
      by (simp add: wordShaped_zeroWord)
  next
    case False
    from validator_tree(2) [OF assms(1) False] obtain ls where
      t: "merkleTree v = newMerkleTree (keccak256 env) ls
                    \<lparr> hashLeaves = True, sortPairs = True, complete = False \<rparr>" by blast
    have "\<forall>x\<in>set (map bufferify (map (keccak256 env) ls)). wordShaped x"
      using assms(2) by simp
    from createHashes_all [of wordShaped "keccak256 env", OF assms(2) this, of True]
    show ?thesis unfolding t by (simp add: newMerkleTree_def Let_def)
  qed
  then show ?thesis using getHexProof_nodes [of "merkleTree v" wordShaped leaf]
    by (simp add: list_all_iff)
qed

lemma mapE_Inr_range:
  "mapE f xs = Inr ys \<Longrightarrow> y \<in> set ys \<Longrightarrow> \<exists>x\<in>set xs. f x = Inr y"
proof (induction xs arbitrary: ys)
  case Nil then show ?case by simp
next
  case (Cons a xs)
  from Cons.prems(1) obtain b bs where b: "f a = Inr b" and bs: "mapE f xs = Inr bs"
    and ys: "ys = b # bs"
    by (cases "f a"; cases "mapE f xs") auto
  show ?case
  proof (cases "y = b")
    case True with b show ?thesis by simp
  next
    case False
    with Cons.prems(2) ys have "y \<in> set bs" by simp
    from Cons.IH [OF bs this] show ?thesis by auto
  qed
qed

lemma filterPermissions_members:
  assumes "filterPermissions ps ts ds vals = Inr (Some found)"
  shows "set found \<subseteq> set ps"
proof
  fix p assume p: "p \<in> set found"
  let ?f = "\<lambda>(tgt, d, v). filterPermissionsFor ps tgt d v"
  from assms obtain ys where ys: "mapE ?f (zip ts (zip ds vals)) = Inr ys"
    and found: "found = map the ys" and all: "list_all (\<lambda>p. p \<noteq> None) ys"
    unfolding filterPermissions_def
    by (cases "mapE ?f (zip ts (zip ds vals))")
       (auto split: if_splits simp del: not_None_eq)
  from p found obtain y where y: "y \<in> set ys" and py: "p = the y" by auto
  from all y have "y \<noteq> None" by (simp add: list_all_iff)
  with py have yp: "y = Some p" by auto
  from mapE_Inr_range [OF ys y] obtain x where "?f x = Inr (Some p)" using yp by auto
  then obtain t d val where "filterPermissionsFor ps t d val = Inr (Some p)"
    by (cases x) auto
  then show "p \<in> set ps" using matched_within_limit by blast
qed

lemma found_members:
  "findMatchingPermissions env v cd = Single p \<Longrightarrow> p \<in> set (permissionsOf (v_sessionKeyData v))"
  "findMatchingPermissions env v cd = Batch found
     \<Longrightarrow> set found \<subseteq> set (permissionsOf (v_sessionKeyData v))"
proof -
  let ?ps = "permissionsOf (v_sessionKeyData v)"
  show "p \<in> set ?ps" if s: "findMatchingPermissions env v cd = Single p"
  proof -
    from s obtain to val d opn rest where
      "filterPermissions ?ps [to] [d] [val] = Inr (Some (p # rest))"
      unfolding findMatchingPermissions_def
      by (auto split: sum.splits FunctionCall.splits option.splits list.splits)
    from filterPermissions_members [OF this] show ?thesis by simp
  qed
  show "set found \<subseteq> set ?ps" if b: "findMatchingPermissions env v cd = Batch found"
  proof -
    from b obtain ts ds vals where
      "filterPermissions ?ps ts ds vals = Inr (Some found)"
      unfolding findMatchingPermissions_def
      by (auto split: sum.splits FunctionCall.splits option.splits list.splits)
    then show ?thesis by (rule filterPermissions_members)
  qed
qed

lemma normalised_tagged:
  "p \<in> set (normalisedPermissions args) \<Longrightarrow> operation p \<noteq> None"
  by (auto simp: normalisedPermissions_def withDefaults_def)

lemma isOk_simps [simp]: "isOk (Inr x)" "\<not> isOk (Inl e)"
  by (simp_all add: isOk_def)

lemma isOk_iff: "isOk x = (\<exists>y. x = Inr y)"
  by (cases x) simp_all

lemma isOk_bindE: "isOk (bindE m f) = (\<exists>x. m = Inr x \<and> isOk (f x))"
  by (cases m) simp_all

lemma isOk_ext: "isOk (ext x) = isOk x"
  by (cases x) simp_all

lemma byteLengthHex_length: "length x = length y \<Longrightarrow> byteLengthHex x = byteLengthHex y"
  by (simp add: byteLengthHex_def)

lemma getEnableData_alike:
  assumes f: "v_validatorAddress v' = v_validatorAddress v" "v_sessionKey v' = v_sessionKey v"
      "validAfter (v_sessionKeyData v') = validAfter (v_sessionKeyData v)"
      "validUntil (v_sessionKeyData v') = validUntil (v_sessionKeyData v)"
      "paymaster (v_sessionKeyData v') = paymaster (v_sessionKeyData v)"
    and w: "wordShaped (getHexRoot (merkleTree v))" "wordShaped (getHexRoot (merkleTree v'))"
  shows "rel_sum (=) (\<lambda>x y. length x = length y)
           (getEnableData env v acc) (getEnableData env v' acc)"
proof -
  define E where "E = (\<lambda>root.
     (case acc of
        None \<Rightarrow> Inl KernelAccountAddressNotProvided
      | Some account \<Rightarrow>
          if account = [] then Inl KernelAccountAddressNotProvided
          else
            bindE (getSessionNonces env v account) (\<lambda>(lastNonce0, invalidNonce).
            bindE (bindE (toHexNumber (case validAfter (v_sessionKeyData v) of
                                         Some x \<Rightarrow> x | None \<Rightarrow> 0))
                     (\<lambda>h. pad h 6)) (\<lambda>after.
            bindE (bindE (toHexNumber (case validUntil (v_sessionKeyData v) of
                                         Some x \<Rightarrow> x | None \<Rightarrow> 0))
                     (\<lambda>h. pad h 6)) (\<lambda>until.
            bindE (pad (numberToHex (lastNonce0 + 1)) 32) (\<lambda>paddedNonce.
            Inr (concatHex
                   [v_sessionKey v, root, after, until,
                    (case paymaster (v_sessionKeyData v) of
                       Some x \<Rightarrow> x | None \<Rightarrow> zeroAddress),
                    paddedNonce])))))))"
  have n: "getSessionNonces env v' a = getSessionNonces env v a" for a
    by (simp add: getSessionNonces_def f)
  have l: "getEnableData env v acc = E (getHexRoot (merkleTree v))"
    unfolding getEnableData_def E_def Let_def pad_word [OF w(1)] bindE_simps ..
  have r: "getEnableData env v' acc = E (getHexRoot (merkleTree v'))"
    unfolding getEnableData_def E_def Let_def pad_word [OF w(2)] bindE_simps f n ..
  have len: "length (concatHex [a, x, b, c, d, e]) = length (concatHex [a, y, b, c, d, e])"
    if "wordShaped x" "wordShaped y" for a b c d e x y
    using wordShaped_replace0x [OF that(1), THEN conjunct2]
      wordShaped_replace0x [OF that(2), THEN conjunct2]
    by (simp add: concatHex_def)
  have "rel_sum (=) (\<lambda>x y. length x = length y) (E x) (E y)"
    if "wordShaped x" "wordShaped y" for x y
    unfolding E_def using len [OF that]
    by (auto simp: bindE_def split: option.splits sum.splits prod.splits)
  from this [OF w] show ?thesis unfolding l r .
qed


lemma getValidatorSignature_alike:
  assumes f: "v_validatorAddress v' = v_validatorAddress v" "v_sessionKey v' = v_sessionKey v"
      "validAfter (v_sessionKeyData v') = validAfter (v_sessionKeyData v)"
      "validUntil (v_sessionKeyData v') = validUntil (v_sessionKeyData v)"
      "paymaster (v_sessionKeyData v') = paymaster (v_sessionKeyData v)"
    and w: "wordShaped (getHexRoot (merkleTree v))" "wordShaped (getHexRoot (merkleTree v'))"
    and g: "v_mode v' = v_mode v" "v_executorData v' = v_executorData v"
  shows "isOk (getValidatorSignature env v a pes) = isOk (getValidatorSignature env v' a pes)"
proof (cases "v_mode v = SudoMode \<or> v_mode v = PluginMode")
  case True
  then show ?thesis by (simp add: getValidatorSignature_def g)
next
  case False
  note alike = getEnableData_alike [OF f w, of env "Some a"]
  show ?thesis
  proof (cases "getEnableData env v (Some a)")
    case (Inl e)
    with alike have "getEnableData env v' (Some a) = Inl e"
      by (cases "getEnableData env v' (Some a)") simp_all
    with Inl False show ?thesis by (simp add: getValidatorSignature_def g)
  next
    case (Inr x)
    with alike obtain y where y: "getEnableData env v' (Some a) = Inr y"
      and len: "length x = length y"
      by (cases "getEnableData env v' (Some a)") simp_all
    have b: "byteLengthHex x = byteLengthHex y" using len by (rule byteLengthHex_length)
    show ?thesis
      unfolding getValidatorSignature_def g Inr y bindE_simps
      using False by (cases pes) (simp_all add: isOk_bindE b f)
  qed
qed

lemma signingPrefix_alike:
  assumes "v_signer v' = v_signer v" "v_entryPoint v' = v_entryPoint v" "v_chainId v' = v_chainId v"
    and "isOk (getValidatorSignature env v (sender op) pes)
           = isOk (getValidatorSignature env v' (sender op) pes)"
  shows "isOk (signingPrefix env v op pes) = isOk (signingPrefix env v' op pes)"
  unfolding signingPrefix_def Let_def assms(1-3)
  using assms(4) by (simp add: isOk_bindE isOk_iff [symmetric])

lemma mapE_isOk_Cons: "isOk (mapE f (x # xs)) = (isOk (f x) \<and> isOk (mapE f xs))"
  by (cases "f x"; cases "mapE f xs") simp_all

lemma mapE_isOk_alike:
  "list_all2 (\<lambda>x y. isOk (f x) = isOk (g y)) xs ys \<Longrightarrow> isOk (mapE f xs) = isOk (mapE g ys)"
  by (induction rule: list_all2_induct) (simp_all add: mapE_isOk_Cons del: mapE.simps(2))

lemma proofTypeOf_simps:
  "proofTypeOf (Proof xs) = Bytes32Array"
  "length xss = length yss \<Longrightarrow> proofTypeOf (Proofs xss) = proofTypeOf (Proofs yss)"
  by (cases xss; cases yss; simp add: proofTypeOf_def)+

lemma untag_list_all2:
  "map untag xs = map untag ys \<Longrightarrow> list_all2 (\<lambda>p q. untag p = untag q) xs ys"
  by (induction xs arbitrary: ys) (auto simp: list_all2_Cons1)

lemma proofData_alike:
  assumes enc: "\<forall>a a' pr pr'. taggedArg a \<and> taggedArg a' \<and> untagArg a = untagArg a'
                   \<and> proofsAlike pr pr'
                 \<longrightarrow> isOk (encodeAbiParameters env a pr) = isOk (encodeAbiParameters env a' pr')"
    and m: "untagMatching (findMatchingPermissions env v cd)
              = untagMatching (findMatchingPermissions env v' cd)"
    and roots: "(getHexRoot (merkleTree v) = zeroWord) = (getHexRoot (merkleTree v') = zeroWord)"
    and empt: "(permissionsOf (v_sessionKeyData v) = []) = (permissionsOf (v_sessionKeyData v') = [])"
    and tagged: "\<forall>p\<in>set (permissionsOf (v_sessionKeyData v)). operation p \<noteq> None"
      "\<forall>p\<in>set (permissionsOf (v_sessionKeyData v')). operation p \<noteq> None"
    and words: "\<forall>leaf. list_all wordShaped (getHexProof (merkleTree v) leaf)"
      "\<forall>leaf. list_all wordShaped (getHexProof (merkleTree v') leaf)"
  shows "isOk (getEncodedPermissionProofData env v cd)
           = isOk (getEncodedPermissionProofData env v' cd)"
proof -
  let ?ps = "permissionsOf (v_sessionKeyData v)"
  let ?ps' = "permissionsOf (v_sessionKeyData v')"
  let ?H = "keccak256 env"
  have E: "isOk (encodeAbiParameters env a pr) = isOk (encodeAbiParameters env a' pr')"
    if "taggedArg a" "taggedArg a'" "untagArg a = untagArg a'" "proofsAlike pr pr'"
    for a a' pr pr'
    using enc that by blast
  have e0: "isOk (encodePermissionData env a None) = isOk (encodePermissionData env a' None)"
    if "taggedArg a" "taggedArg a'" "untagArg a = untagArg a'" for a a'
  proof -
    have pa: "proofsAlike None None" by (simp add: proofsAlike_def)
    show ?thesis
      unfolding encodePermissionData_def option.case isOk_ext by (rule E [OF that pa])
  qed
  have e1: "isOk (encodePermissionData env a (Some (Proof xs)))
              = isOk (encodePermissionData env a' (Some (Proof ys)))"
    if "taggedArg a" "taggedArg a'" "untagArg a = untagArg a'"
      "list_all wordShaped xs" "list_all wordShaped ys" for a a' xs ys
  proof -
    have pa: "proofsAlike (Some (proofTypeOf (Proof xs), Proof xs))
            (Some (proofTypeOf (Proof ys), Proof ys))"
      using that(4,5) by (simp add: proofsAlike_def proofTypeOf_simps)
    show ?thesis
      unfolding encodePermissionData_def option.case isOk_ext by (rule E [OF that(1-3) pa])
  qed
  have e2: "isOk (encodePermissionData env a (Some (Proofs xss)))
              = isOk (encodePermissionData env a' (Some (Proofs yss)))"
    if "taggedArg a" "taggedArg a'" "untagArg a = untagArg a'" "length xss = length yss"
      "list_all (list_all wordShaped) xss" "list_all (list_all wordShaped) yss" for a a' xss yss
  proof -
    have pa: "proofsAlike (Some (proofTypeOf (Proofs xss), Proofs xss))
            (Some (proofTypeOf (Proofs yss), Proofs yss))"
      using that(4-6) proofTypeOf_simps(2) [OF that(4)] by (simp add: proofsAlike_def)
    show ?thesis
      unfolding encodePermissionData_def option.case isOk_ext by (rule E [OF that(1-3) pa])
  qed
  show ?thesis
  proof (cases "findMatchingPermissions env v cd")
    case Undefined
    with m have u': "findMatchingPermissions env v' cd = Undefined"
      by (cases "findMatchingPermissions env v' cd") simp_all
    show ?thesis
      unfolding getEncodedPermissionProofData_def Let_def Undefined u'
      using roots by (simp add: asPermissionArg_def)
  next
    case (Single p)
    with m obtain p' where s': "findMatchingPermissions env v' cd = Single p'"
      and u: "untag p = untag p'"
      by (cases "findMatchingPermissions env v' cd") simp_all
    have mem: "p \<in> set ?ps" "p' \<in> set ?ps'"
      using found_members(1) [OF Single] found_members(1) [OF s'] by simp_all
    then have ne: "?ps \<noteq> []" "?ps' \<noteq> []" by auto
    have t: "taggedArg (OnePermission p)" "taggedArg (OnePermission p')"
      using mem tagged by (simp_all add: taggedArg_def)
    have ua: "untagArg (OnePermission p) = untagArg (OnePermission p')"
      using u by (simp add: untagArg_def)
    define B where "B = isOk (encodePermissionData env (OnePermission p) (Some (Proof [])))"
    have b: "isOk (encodePermissionData env (OnePermission p)
                     (Some (Proof (getHexProof (merkleTree v) x)))) = B" for x
      unfolding B_def using words(1) by (intro e1 t) simp_all
    have b': "isOk (encodePermissionData env (OnePermission p')
                     (Some (Proof (getHexProof (merkleTree v') x)))) = B" for x
      unfolding B_def using words(2) u
      by (intro e1 t) (simp_all add: untagArg_def)
    have l: "isOk (getEncodedPermissionProofData env v cd)
               = (isOk (encodePermissionData env (OnePermission p) None) \<and> B)"
      unfolding getEncodedPermissionProofData_def Let_def Single
      using ne(1) by (simp add: asPermissionArg_def isOk_bindE b isOk_iff [symmetric])
    have r: "isOk (getEncodedPermissionProofData env v' cd)
               = (isOk (encodePermissionData env (OnePermission p') None) \<and> B)"
      unfolding getEncodedPermissionProofData_def Let_def s'
      using ne(2) by (simp add: asPermissionArg_def isOk_bindE b' isOk_iff [symmetric])
    show ?thesis unfolding l r using e0 [OF t ua] by simp
  next
    case (Batch found)
    with m obtain found' where s': "findMatchingPermissions env v' cd = Batch found'"
      and u: "map untag found = map untag found'"
      by (cases "findMatchingPermissions env v' cd") simp_all
    let ?enc = "\<lambda>permission. encodePermissionData env (OnePermission permission) None"
    have sub: "set found \<subseteq> set ?ps" "set found' \<subseteq> set ?ps'"
      using found_members(2) [OF Batch] found_members(2) [OF s'] by simp_all
    have tg: "\<forall>p\<in>set found. operation p \<noteq> None" "\<forall>p\<in>set found'. operation p \<noteq> None"
      using sub tagged by auto
    have len: "length found = length found'"
      using arg_cong [OF u, of length] by simp
    have "list_all2 (\<lambda>p q. untag p = untag q) found found'"
      using u by (rule untag_list_all2)
    then have "list_all2 (\<lambda>p q. isOk (?enc p) = isOk (?enc q)) found found'"
    proof (rule list.rel_mono_strong)
      fix p q assume "p \<in> set found" "q \<in> set found'" "untag p = untag q"
      with tg show "isOk (?enc p) = isOk (?enc q)"
        by (intro e0) (simp_all add: taggedArg_def untagArg_def)
    qed
    then have me: "isOk (mapE ?enc found) = isOk (mapE ?enc found')"
      by (rule mapE_isOk_alike)
    have t: "taggedArg (ManyPermissions found)" "taggedArg (ManyPermissions found')"
      using tg by (simp_all add: taggedArg_def list_all_iff)
    have ua: "untagArg (ManyPermissions found) = untagArg (ManyPermissions found')"
      using u by (simp add: untagArg_def)
    define B where "B = isOk (encodePermissionData env (ManyPermissions found)
                                (Some (Proofs (replicate (length found) []))))"
    have b: "isOk (encodePermissionData env (ManyPermissions found)
                     (Some (Proofs (map (\<lambda>perm. getHexProof (merkleTree v) (?H perm)) eps)))) = B"
      if "mapE ?enc found = Inr eps" for eps
      unfolding B_def using words(1) mapE_length [OF that]
      by (intro e2 t) (simp_all add: list_all_iff)
    have b': "isOk (encodePermissionData env (ManyPermissions found')
                     (Some (Proofs (map (\<lambda>perm. getHexProof (merkleTree v') (?H perm)) eps)))) = B"
      if "mapE ?enc found' = Inr eps" for eps
      unfolding B_def using words(2) mapE_length [OF that] len ua
      by (intro e2 t) (simp_all add: list_all_iff)
    show ?thesis
    proof (cases "?ps = []")
      case True
      with empt have e': "?ps' = []" by simp
      show ?thesis
        unfolding getEncodedPermissionProofData_def Let_def Batch s'
        using True e' me by (simp add: isOk_bindE isOk_iff [symmetric])
    next
      case False
      with empt have e': "?ps' \<noteq> []" by simp
      have l: "isOk (getEncodedPermissionProofData env v cd)
               = (isOk (encodePermissionData env (ManyPermissions found) None)
                  \<and> isOk (mapE ?enc found) \<and> B)"
      proof (cases "mapE ?enc found")
        case (Inl e)
        show ?thesis
          unfolding getEncodedPermissionProofData_def Let_def Batch
          using False by (simp add: asPermissionArg_def isOk_bindE Inl)
      next
        case (Inr eps)
        show ?thesis
          unfolding getEncodedPermissionProofData_def Let_def Batch
          using False
          by (simp add: asPermissionArg_def isOk_bindE Inr b [OF Inr] isOk_iff [symmetric])
      qed
      have r: "isOk (getEncodedPermissionProofData env v' cd)
               = (isOk (encodePermissionData env (ManyPermissions found') None)
                  \<and> isOk (mapE ?enc found') \<and> B)"
      proof (cases "mapE ?enc found'")
        case (Inl e)
        show ?thesis
          unfolding getEncodedPermissionProofData_def Let_def s'
          using e' by (simp add: asPermissionArg_def isOk_bindE Inl)
      next
        case (Inr eps)
        show ?thesis
          unfolding getEncodedPermissionProofData_def Let_def s'
          using e'
          by (simp add: asPermissionArg_def isOk_bindE Inr b' [OF Inr] isOk_iff [symmetric])
      qed
      show ?thesis unfolding l r using e0 [OF t ua] me by simp
    qed
  qed
qed

text \<open>
  C7. The operation tags of the permissions play no part in matching. The operation
  stage filters for \<open>Call\<close> and keeps every candidate. For two validators built in
  the same environment from permission lists that agree up to their operation tags, the
  matcher returns, for every call, results that agree up to the operation tags (the same
  permission by index, target, selector, limit and rules), so a permission tagged
  \<open>DelegateCall\<close> authorises an \<open>execute\<close> call; and the proof data fails with
  \<open>NoMatchingPermission\<close> for the one exactly when it does for the other. The Merkle
  roots enter that check: \<open>keccak256\<close> is taken never to return the zero word.

  Whether signing succeeds does not change either. The tags are part of what is encoded
  and hashed, so the two trees and proofs differ, and \<open>keccak256\<close> and the ABI encoder
  are parameters: here the hash is taken to return 32-byte words, and the encoder to
  succeed or fail regardless of the operation tags of tagged permissions and of which
  32-byte words a proof of a given type and length holds. Then the proof data is
  obtained for the one validator exactly when it is for the other, and, when the two
  argument records agree on everything but the permissions, \<open>signUserOperation\<close>
  returns a signature for the one exactly when it does for the other.
\<close>

theorem C7_operation_tags_are_ignored:
  assumes built: "signerToSessionKeyValidator env args = Inr v"
    and built': "signerToSessionKeyValidator env args' = Inr v'"
    and same: "map untag (givenPermissions args) = map untag (givenPermissions args')"
    and hash: "\<forall>y. bufferify (keccak256 env y) \<noteq> zeroWord"
  shows "filterByOperation (permissionsOf (v_sessionKeyData v)) Call
           = permissionsOf (v_sessionKeyData v)
       \<and> map_sum id (map_option untag)
             (filterPermissionsFor (permissionsOf (v_sessionKeyData v)) t d val)
           = map_sum id (map_option untag)
               (filterPermissionsFor (permissionsOf (v_sessionKeyData v')) t d val)
       \<and> map_sum id (map_option (map untag))
             (filterPermissions (permissionsOf (v_sessionKeyData v)) ts ds vals)
           = map_sum id (map_option (map untag))
               (filterPermissions (permissionsOf (v_sessionKeyData v')) ts ds vals)
       \<and> untagMatching (findMatchingPermissions env v cd)
           = untagMatching (findMatchingPermissions env v' cd)
       \<and> (getEncodedPermissionProofData env v cd = Inl NoMatchingPermission)
           = (getEncodedPermissionProofData env v' cd = Inl NoMatchingPermission)
       \<and> ((\<forall>y. wordShaped (bufferify (keccak256 env y)))
            \<and> (\<forall>a a' pr pr'. taggedArg a \<and> taggedArg a' \<and> untagArg a = untagArg a'
                     \<and> proofsAlike pr pr'
                   \<longrightarrow> isOk (encodeAbiParameters env a pr)
                         = isOk (encodeAbiParameters env a' pr'))
          \<longrightarrow> isOk (getEncodedPermissionProofData env v cd)
                = isOk (getEncodedPermissionProofData env v' cd)
              \<and> (sameButPermissions args args'
                   \<longrightarrow> isOk (sessionKey_signUserOperation env v op pes)
                         = isOk (sessionKey_signUserOperation env v' op pes)))"
proof -
  let ?ps = "permissionsOf (v_sessionKeyData v)"
  let ?ps' = "permissionsOf (v_sessionKeyData v')"
  have u: "map untag ?ps = map untag ?ps'"
    unfolding validator_sessionKeyData(2) [OF built] validator_sessionKeyData(2) [OF built']
      normalised_untag same ..
  have m: "untagMatching (findMatchingPermissions env v cd)
             = untagMatching (findMatchingPermissions env v' cd)"
    by (rule findMatchingPermissions_untag [OF u])
  then have und: "(findMatchingPermissions env v cd = Undefined)
                    = (findMatchingPermissions env v' cd = Undefined)"
    using untagMatching_Undefined [of "findMatchingPermissions env v cd"]
      untagMatching_Undefined [of "findMatchingPermissions env v' cd"] by simp
  have e: "(givenPermissions args = []) = (givenPermissions args' = [])"
    using arg_cong [OF same, of length]
    by (cases "givenPermissions args"; cases "givenPermissions args'") simp_all
  have roots: "(getHexRoot (merkleTree v) = zeroWord) = (getHexRoot (merkleTree v') = zeroWord)"
  proof (cases "givenPermissions args = []")
    case True
    with e have "givenPermissions args' = []" by simp
    with True validator_tree(1) [OF built] validator_tree(1) [OF built']
    show ?thesis by simp
  next
    case False
    with e have f': "givenPermissions args' \<noteq> []" by simp
    from validator_tree(2) [OF built False] hashed_root [OF hash]
    have "getHexRoot (merkleTree v) \<noteq> zeroWord" by auto
    moreover from validator_tree(2) [OF built' f'] hashed_root [OF hash]
    have "getHexRoot (merkleTree v') \<noteq> zeroWord" by auto
    ultimately show ?thesis by simp
  qed
  have first: "filterByOperation (permissionsOf (v_sessionKeyData v)) Call
           = permissionsOf (v_sessionKeyData v)
       \<and> map_sum id (map_option untag)
             (filterPermissionsFor (permissionsOf (v_sessionKeyData v)) t d val)
           = map_sum id (map_option untag)
               (filterPermissionsFor (permissionsOf (v_sessionKeyData v')) t d val)
       \<and> map_sum id (map_option (map untag))
             (filterPermissions (permissionsOf (v_sessionKeyData v)) ts ds vals)
           = map_sum id (map_option (map untag))
               (filterPermissions (permissionsOf (v_sessionKeyData v')) ts ds vals)
       \<and> untagMatching (findMatchingPermissions env v cd)
           = untagMatching (findMatchingPermissions env v' cd)
       \<and> (getEncodedPermissionProofData env v cd = Inl NoMatchingPermission)
           = (getEncodedPermissionProofData env v' cd = Inl NoMatchingPermission)"
    unfolding proofData_NoMatching_iff
    using m und roots filterPermissionsFor_untag [of ?ps t d val]
      filterPermissionsFor_untag [of ?ps' t d val]
      filterPermissions_untag [of ?ps ts ds vals] filterPermissions_untag [of ?ps' ts ds vals] u
    by (simp add: filterByOperation_Call)
  have second: "isOk (getEncodedPermissionProofData env v c)
                  = isOk (getEncodedPermissionProofData env v' c)
              \<and> (sameButPermissions args args'
                   \<longrightarrow> isOk (sessionKey_signUserOperation env v op pes)
                         = isOk (sessionKey_signUserOperation env v' op pes))"
    if words: "\<forall>y. wordShaped (bufferify (keccak256 env y))"
      and enc: "\<forall>a a' pr pr'. taggedArg a \<and> taggedArg a' \<and> untagArg a = untagArg a'
                     \<and> proofsAlike pr pr'
                   \<longrightarrow> isOk (encodeAbiParameters env a pr)
                         = isOk (encodeAbiParameters env a' pr')"
    for c
  proof -
    have em: "(?ps = []) = (?ps' = [])"
      using arg_cong [OF u, of length] by (cases ?ps; cases ?ps') simp_all
    have tg: "\<forall>p\<in>set ?ps. operation p \<noteq> None" "\<forall>p\<in>set ?ps'. operation p \<noteq> None"
      unfolding validator_sessionKeyData(2) [OF built] validator_sessionKeyData(2) [OF built']
      using normalised_tagged by blast+
    have w: "\<forall>leaf. list_all wordShaped (getHexProof (merkleTree v) leaf)"
      "\<forall>leaf. list_all wordShaped (getHexProof (merkleTree v') leaf)"
      using validator_proof_words [OF built words] validator_proof_words [OF built' words]
      by simp_all
    have pd: "isOk (getEncodedPermissionProofData env v c)
                = isOk (getEncodedPermissionProofData env v' c)" for c
      by (rule proofData_alike [OF enc findMatchingPermissions_untag [OF u] roots em tg w])
    have sign: "isOk (sessionKey_signUserOperation env v op pes)
                  = isOk (sessionKey_signUserOperation env v' op pes)"
      if sb: "sameButPermissions args args'"
    proof -
      note f = validator_fields [OF built] validator_fields [OF built']
        validator_data_fields [OF built] validator_data_fields [OF built']
        validator_sessionKeyData(1) [OF built] validator_sessionKeyData(1) [OF built']
      have ch: "v_chainId v' = v_chainId v"
        using validator_data_fields(3) [OF built] validator_data_fields(3) [OF built'] by simp
      have rw: "wordShaped (getHexRoot (merkleTree v))" "wordShaped (getHexRoot (merkleTree v'))"
        using validator_root_word [OF built words] validator_root_word [OF built' words]
        by simp_all
      have vs: "isOk (getValidatorSignature env v (sender op) pes)
                  = isOk (getValidatorSignature env v' (sender op) pes)"
        by (rule getValidatorSignature_alike [OF _ _ _ _ _ rw])
           (use sb in \<open>simp_all add: f sameButPermissions_def\<close>)
      have pre: "isOk (signingPrefix env v op pes) = isOk (signingPrefix env v' op pes)"
        by (rule signingPrefix_alike [OF _ _ ch vs])
           (use sb in \<open>simp_all add: f sameButPermissions_def\<close>)
      have st: "isOk (sessionKey_signUserOperation env x op pes)
                  = (isOk (signingPrefix env x op pes)
                     \<and> isOk (getEncodedPermissionProofData env x (callData op)))" for x
        unfolding signUserOperation_steps
        by (cases "signingPrefix env x op pes";
            cases "getEncodedPermissionProofData env x (callData op)")
           (simp_all add: case_prod_unfold)
      show ?thesis unfolding st pre pd [of "callData op"] ..
    qed
    from pd [of c] sign show ?thesis by blast
  qed
  from first second [of cd] show ?thesis by blast
qed

lemma sampleHash_not_zero: "bufferify (sampleHash y) \<noteq> zeroWord"
proof -
  have "last (bufferify (sampleHash y)) = CHR ''1''"
    by (simp add: bufferify_def sampleHash_def toLowerCase_def toLowerChar_def)
  moreover have "last zeroWord = CHR ''0''" by (simp add: zeroWord_def)
  ultimately show ?thesis by auto
qed

lemma sampleHash_word: "wordShaped (bufferify (sampleHash y))"
  by (simp add: wordShaped_def bufferify_def sampleHash_def toLowerCase_def toLowerChar_def)


lemma lone_match:
  assumes "target P = A" "val \<le> limitOf P" "rulesOf P = []"
    "toLowerCase (slice d 0 10) = toLowerCase (sigOf P)"
  shows "filterPermissionsFor [withDefaults P i] A d val = Inr (Some (withDefaults P i))"
  unfolding filterPermissionsFor_def filterByOperation_Call filterBySignature_def Let_def
  by (simp add: withDefaults_fields assms)

lemma sampleEnvDecoding_signing:
  "signMessage (sampleEnvDecoding c) = (\<lambda>account hash. Inr (concatHex [hash, hash, ''0x00'']))"
  "getUserOperationHash (sampleEnvDecoding c)
     = (\<lambda>userOperation ep chainId.
          sampleHash (concatHex [sender userOperation, callData userOperation,
                                 signature userOperation]))"
  "hexToSignature (sampleEnvDecoding c) = viem_hexToSignature"
  "signatureToHex (sampleEnvDecoding c) = viem_signatureToHex"
  by (simp_all add: sampleEnvDecoding_def sampleEnv_def)

lemma sample_prefix_ok:
  assumes "v_mode v = SudoMode"
  shows "isOk (signingPrefix (sampleEnvDecoding c) v (sampleUserOperation ''0x'') None)"
proof -
  let ?env = "sampleEnvDecoding c"
  have h: "getUserOperationHash ?env ((sampleUserOperation ''0x'') \<lparr> signature := ''0x'' \<rparr>)
             (v_entryPoint v) (v_chainId v) = sampleUserOpHash"
    by (simp add: sampleEnvDecoding_signing sampleUserOpHash_def)
  have sg: "ext (signMessage ?env (v_signer v) sampleUserOpHash) = Inr sampleSigned"
    by (simp add: sampleEnvDecoding_signing sampleSigned_def)
  have hx: "isHex sampleSigned" by code_simp
  have ok: "isOk (bindE (ext (viem_hexToSignature sampleSigned))
          (\<lambda>parsed. ext (viem_signatureToHex
             (parsed \<lparr> sig_v := (if sig_v parsed = 0 \<or> sig_v parsed = 1 then sig_v parsed + 27
                                  else sig_v parsed) \<rparr>))))"
    by code_simp
  have "isOk (fixSignedData ?env sampleSigned)"
    unfolding fixSignedData_def Let_def sampleEnvDecoding_signing using hx ok by simp
  then obtain fs where fs: "fixSignedData ?env sampleSigned = Inr fs"
    using isOk_obtain by blast
  have vs: "getValidatorSignature ?env v (sender (sampleUserOperation ''0x'')) None
              = Inr (modeBytes ?env SudoMode)"
    by (simp add: getValidatorSignature_def assms)
  show ?thesis
    unfolding signingPrefix_def Let_def h sg bindE_simps fs vs by (simp add: isOk_def)
qed

theorem C7_operation_tags_are_ignored_witness:
  "map untag (givenPermissions (sampleArgs [sampleDelegate] SudoMode))
     = map untag (givenPermissions (sampleArgs [sampleCall] SudoMode))
   \<and> (\<forall>y. bufferify (keccak256 (sampleEnvDecoding (ExecuteFn addressA 7 ''0xa9059cbb'' 0)) y)
             \<noteq> zeroWord)
   \<and> (\<forall>y. wordShaped
             (bufferify (keccak256 (sampleEnvDecoding (ExecuteFn addressA 7 ''0xa9059cbb'' 0)) y)))
   \<and> sameButPermissions (sampleArgs [sampleDelegate] SudoMode) (sampleArgs [sampleCall] SudoMode)
   \<and> bindE (signerToSessionKeyValidator
               (sampleEnvDecoding (ExecuteFn addressA 7 ''0xa9059cbb'' 0))
               (sampleArgs [sampleDelegate] SudoMode))
        (\<lambda>v. Inr (untagMatching (findMatchingPermissions
                     (sampleEnvDecoding (ExecuteFn addressA 7 ''0xa9059cbb'' 0)) v ''0x'')))
       = Inr (Single (untag (withDefaults sampleCall 0)))
   \<and> isOk (bindE (signerToSessionKeyValidator
               (sampleEnvDecoding (ExecuteFn addressA 7 ''0xa9059cbb'' 0))
               (sampleArgs [sampleDelegate] SudoMode))
        (\<lambda>v. sessionKey_signUserOperation
                 (sampleEnvDecoding (ExecuteFn addressA 7 ''0xa9059cbb'' 0)) v
                 (sampleUserOperation ''0x'') None))"
proof -
  let ?env = "sampleEnvDecoding (ExecuteFn addressA 7 ''0xa9059cbb'' 0)"
  let ?argsD = "sampleArgs [sampleDelegate] SudoMode"
  let ?argsC = "sampleArgs [sampleCall] SudoMode"
  let ?op = "sampleUserOperation ''0x''"
  obtain vD where vD: "signerToSessionKeyValidator ?env ?argsD = Inr vD"
    using isOk_obtain [OF sample_construction] by blast
  obtain vC where vC: "signerToSessionKeyValidator ?env ?argsC = Inr vC"
    using isOk_obtain [OF sample_construction] by blast
  have gD: "givenPermissions ?argsD = [sampleDelegate]"
    and gC: "givenPermissions ?argsC = [sampleCall]"
    by (simp_all add: givenPermissions_def sampleArgs_def)
  have same: "map untag (givenPermissions ?argsD) = map untag (givenPermissions ?argsC)"
    unfolding gD gC by (simp add: untag_def sampleDelegate_def sampleCall_def)
  have hash: "\<forall>y. bufferify (keccak256 ?env y) \<noteq> zeroWord"
    by (simp add: sampleEnvDecoding_fields sampleHash_not_zero)
  have words: "\<forall>y. wordShaped (bufferify (keccak256 ?env y))"
    by (simp add: sampleEnvDecoding_fields sampleHash_word)
  have enc: "\<forall>a a' pr pr'. taggedArg a \<and> taggedArg a' \<and> untagArg a = untagArg a'
                     \<and> proofsAlike pr pr'
                   \<longrightarrow> isOk (encodeAbiParameters ?env a pr)
                         = isOk (encodeAbiParameters ?env a' pr')"
    by (simp add: sampleEnvDecoding_fields sampleEncode_def)
  have sb: "sameButPermissions ?argsD ?argsC"
    by (simp add: sameButPermissions_def sampleArgs_def normalisedSessionKeyData_def)
  have psC: "permissionsOf (v_sessionKeyData vC) = [withDefaults sampleCall 0]"
    unfolding validator_sessionKeyData(2) [OF vC] normalisedPermissions_def gC by simp
  have mC: "filterPermissionsFor [withDefaults sampleCall 0] addressA ''0xa9059cbb'' 7
              = Inr (Some (withDefaults sampleCall 0))"
    by (rule lone_match)
       (simp_all add: sampleCall_def sampleP1_def samplePermission_def limitOf_def rulesOf_def
          sigOf_def slice_def)
  have fC: "findMatchingPermissions ?env vC ''0x'' = Single (withDefaults sampleCall 0)"
    unfolding findMatchingPermissions_def psC filterPermissions_single
    by (simp add: sampleEnvDecoding_fields mC)
  have cd: "callData ?op = ''0x''" by (simp add: sampleUserOperation_def)
  have pdC: "isOk (getEncodedPermissionProofData ?env vC (callData ?op))"
    unfolding getEncodedPermissionProofData_def Let_def cd fC
    by (simp add: psC asPermissionArg_def encodePermissionData_def isOk_bindE
          sampleEnvDecoding_fields sampleEncode_def)
  have modeC: "v_mode vC = SudoMode"
    using validator_fields(1) [OF vC] by (simp add: sampleArgs_def)
  have preC: "isOk (signingPrefix ?env vC ?op None)"
    by (rule sample_prefix_ok [OF modeC])
  have signC: "isOk (sessionKey_signUserOperation ?env vC ?op None)"
    unfolding signUserOperation_steps using preC pdC
    by (cases "signingPrefix ?env vC ?op None";
        cases "getEncodedPermissionProofData ?env vC (callData ?op)")
       (simp_all add: case_prod_unfold)
  note inst = C7_operation_tags_are_ignored [OF vD vC same hash,
      of addressA "''0x''" 0 "[]" "[]" "[]" "''0x''" ?op None]
  have a: "untagMatching (findMatchingPermissions ?env vD ''0x'')
          = untagMatching (findMatchingPermissions ?env vC ''0x'')"
    using inst by blast
  have "isOk (sessionKey_signUserOperation ?env vD ?op None)
          = isOk (sessionKey_signUserOperation ?env vC ?op None)"
    using inst words enc sb by blast
  with signC have b: "isOk (sessionKey_signUserOperation ?env vD ?op None)" by simp
  from a b fC vD same hash words sb show ?thesis by simp
qed

section \<open>Signing with and without permissions\<close>

lemma toHexNumber_not_NoMatching: "toHexNumber n \<noteq> Inl NoMatchingPermission"
  by (simp add: toHexNumber_def)

lemma byteLengthHex_not_NoMatching: "byteLengthHex x \<noteq> Inl NoMatchingPermission"
  by (simp add: byteLengthHex_def toHexNumber_not_NoMatching)

lemma case_prod_not_error:
  "(\<And>a b. f a b \<noteq> Inl e) \<Longrightarrow> (case x of (a, b) \<Rightarrow> f a b) \<noteq> Inl e"
  by (cases x) simp

lemma if_not_error:
  "(c \<Longrightarrow> a \<noteq> Inl e) \<Longrightarrow> (\<not> c \<Longrightarrow> b \<noteq> Inl e) \<Longrightarrow> (if c then a else b) \<noteq> Inl e"
  by simp

lemma Inr_not_error: "Inr z \<noteq> Inl e"
  by simp

lemmas not_NoMatching_intros =
  bindE_not_error case_prod_not_error if_not_error Inr_not_error
  ext_not_NoMatching pad_not_NoMatching byteLengthHex_not_NoMatching toHexNumber_not_NoMatching

lemma getEnableData_not_NoMatching: "getEnableData env v a \<noteq> Inl NoMatchingPermission"
proof (cases a)
  case None then show ?thesis by (simp add: getEnableData_def)
next
  case (Some account)
  have n: "getSessionNonces env v account \<noteq> Inl NoMatchingPermission"
    by (simp add: getSessionNonces_def ext_not_NoMatching)
  show ?thesis
    unfolding getEnableData_def Some option.case Let_def
    by (intro not_NoMatching_intros n) simp
qed

lemma getValidatorSignature_not_NoMatching:
  "getValidatorSignature env v a pes \<noteq> Inl NoMatchingPermission"
proof (cases pes)
  case None
  show ?thesis
    unfolding getValidatorSignature_def None option.case
    by (intro not_NoMatching_intros getEnableData_not_NoMatching) simp
next
  case (Some enableSignature)
  show ?thesis
    unfolding getValidatorSignature_def Some option.case
    by (intro not_NoMatching_intros getEnableData_not_NoMatching) simp
qed

lemma fixSignedData_not_NoMatching: "fixSignedData env sg \<noteq> Inl NoMatchingPermission"
  unfolding fixSignedData_def Let_def
  by (intro not_NoMatching_intros) simp

lemma signingPrefix_not_NoMatching:
  "signingPrefix env v op pes \<noteq> Inl NoMatchingPermission"
  unfolding signingPrefix_def Let_def
  by (intro not_NoMatching_intros fixSignedData_not_NoMatching
        getValidatorSignature_not_NoMatching)

lemma mapE_const_None:
  "mapE (\<lambda>x. Inr None) xs = Inr (map (\<lambda>x. None) xs)"
  by (induction xs) simp_all

lemma filterPermissionsFor_Nil: "filterPermissionsFor [] t d val = Inr None"
  by (simp add: filterPermissionsFor_def)

lemma filterPermissions_Nil:
  "filterPermissions [] ts ds vals = Inr (Some found) \<Longrightarrow> ts = [] \<and> found = []"
proof -
  assume a: "filterPermissions [] ts ds vals = Inr (Some found)"
  have m: "mapE (\<lambda>(tgt, d, v). filterPermissionsFor [] tgt d v) xs = Inr (map (\<lambda>x. None) xs)"
    for xs :: "(hex \<times> hex \<times> int) list"
    using mapE_const_None [of xs] by (simp add: filterPermissionsFor_Nil case_prod_unfold)
  have len: "length ts = length ds" "length ts = length vals"
    using a by (auto simp: filterPermissions_def split: if_splits)
  have "list_all (\<lambda>p. p \<noteq> None) (map (\<lambda>x. None :: Permission option) (zip ts (zip ds vals)))"
    using a len by (auto simp: filterPermissions_def m split: if_splits simp del: not_None_eq)
  then have z: "zip ts (zip ds vals) = []" by (cases "zip ts (zip ds vals)") simp_all
  then have "ts = []" using len by (cases ts; cases ds; cases vals) simp_all
  moreover have "found = []" using a len z by (auto simp: filterPermissions_def m split: if_splits)
  ultimately show ?thesis by simp
qed

lemma findMatchingPermissions_no_permissions:
  assumes "permissionsOf (v_sessionKeyData v) = []"
  shows "findMatchingPermissions env v cd = Undefined \<or> findMatchingPermissions env v cd = Batch []"
proof (cases "decodeFunctionData env cd")
  case (Inl m) then show ?thesis by (simp add: findMatchingPermissions_def)
next
  case (Inr c)
  show ?thesis
  proof (cases c)
    case (ExecuteFn to val d opn)
    have "filterPermissions [] [to] [d] [val] = Inr None"
      by (simp add: filterPermissions_single filterPermissionsFor_Nil)
    with Inr ExecuteFn show ?thesis by (simp add: findMatchingPermissions_def assms)
  next
    case (ExecuteBatchFn calls)
    let ?r = "filterPermissions [] (map (\<lambda>(to, val, d). to) calls)
                  (map (\<lambda>(to, val, d). d) calls) (map (\<lambda>(to, val, d). val) calls)"
    have "(case ?r of Inr (Some found) \<Rightarrow> Batch found | _ \<Rightarrow> Undefined) = Undefined
          \<or> (case ?r of Inr (Some found) \<Rightarrow> Batch found | _ \<Rightarrow> Undefined) = Batch []"
      using filterPermissions_Nil [of "map (\<lambda>(to, val, d). to) calls"
          "map (\<lambda>(to, val, d). d) calls" "map (\<lambda>(to, val, d). val) calls"]
      by (cases ?r) (auto split: option.splits)
    with Inr ExecuteBatchFn show ?thesis by (simp add: findMatchingPermissions_def assms)
  qed (simp_all add: findMatchingPermissions_def Inr)
qed

lemma proofData_no_permissions:
  assumes "permissionsOf (v_sessionKeyData v) = []" and "getHexRoot (merkleTree v) = zeroWord"
  shows "getEncodedPermissionProofData env v cd = Inr ''0x''"
  using findMatchingPermissions_no_permissions [OF assms(1), of env cd]
  by (auto simp: getEncodedPermissionProofData_def assms asPermissionArg_def)

lemma pad_zero_byte: "pad ''0x00'' 32 = Inr zeroWord"
proof -
  have "replicate 64 CHR ''0'' = replicate (62 + 2) CHR ''0''" by simp
  also have "\<dots> = replicate 62 CHR ''0'' @ replicate 2 CHR ''0''" by (rule replicate_add)
  also have "replicate 2 CHR ''0'' = ''00''" by (simp add: numeral_2_eq_2)
  finally have "replicate 62 CHR ''0'' @ ''00'' = replicate 64 CHR ''0''" by simp
  then show ?thesis by (simp add: pad_def zeroWord_def)
qed

text \<open>
  C2. A validator built without permissions carries the tree of the single sentinel
  leaf: one layer, one leaf, and the root is the 32-byte zero word, the value the signing
  code compares it with. For every call data the permission-proof segment is the empty
  byte string \<open>0x\<close>; for every user operation, signing does not fail with
  \<open>NoMatchingPermission\<close>, and its result is that of the earlier steps with \<open>0x\<close>
  appended as the last segment.
\<close>

theorem C2_no_permissions_need_no_proof:
  assumes built: "signerToSessionKeyValidator env args = Inr v"
    and none: "givenPermissions args = []"
  shows "leaves (merkleTree v) = [zeroWord]
       \<and> layers (merkleTree v) = [[zeroWord]]
       \<and> getHexRoot (merkleTree v) = ''0x'' @ replicate 64 CHR ''0''
       \<and> pad ''0x00'' 32 = Inr (getHexRoot (merkleTree v))
       \<and> getEncodedPermissionProofData env v cd = Inr ''0x''
       \<and> sessionKey_signUserOperation env v op pes \<noteq> Inl NoMatchingPermission
       \<and> sessionKey_signUserOperation env v op pes
           = bindE (signingPrefix env v op pes)
               (\<lambda>(validatorSignature, fixedSignature).
                  Inr (concatHex [validatorSignature, v_sessionKey v, fixedSignature, ''0x'']))"
proof -
  have tree: "merkleTree v = \<lparr> leaves = [zeroWord], layers = [[zeroWord]] \<rparr>"
    by (rule validator_tree(1) [OF built none])
  have root: "getHexRoot (merkleTree v) = zeroWord" by (simp add: tree getHexRoot_def)
  have ps: "permissionsOf (v_sessionKeyData v) = []"
    unfolding validator_sessionKeyData(2) [OF built] using none
    by (simp add: normalisedPermissions_empty)
  have pd: "getEncodedPermissionProofData env v c = Inr ''0x''" for c
    by (rule proofData_no_permissions [OF ps root])
  have steps: "sessionKey_signUserOperation env v op pes
           = bindE (signingPrefix env v op pes)
               (\<lambda>(validatorSignature, fixedSignature).
                  Inr (concatHex [validatorSignature, v_sessionKey v, fixedSignature, ''0x'']))"
    unfolding signUserOperation_steps pd by simp
  have "sessionKey_signUserOperation env v op pes \<noteq> Inl NoMatchingPermission"
    unfolding steps by (rule bindE_not_error [OF signingPrefix_not_NoMatching]) auto
  with tree root pd steps show ?thesis by (simp add: zeroWord_def pad_zero_byte [unfolded zeroWord_def])
qed


theorem C2_no_permissions_need_no_proof_witness:
  "givenPermissions (sampleArgs [] EnableMode) = []
   \<and> bindE (signerToSessionKeyValidator (sampleEnvDecoding (ExecuteFn addressA 1 ''0x'' 0))
              (sampleArgs [] EnableMode))
        (\<lambda>v. Inr (getHexRoot (merkleTree v))) = Inr zeroWord
   \<and> bindE (signerToSessionKeyValidator (sampleEnvDecoding (ExecuteFn addressA 1 ''0x'' 0))
              (sampleArgs [] EnableMode))
        (\<lambda>v. getEncodedPermissionProofData (sampleEnvDecoding (ExecuteFn addressA 1 ''0x'' 0))
                v ''0x'') = Inr ''0x''"
proof -
  let ?env = "sampleEnvDecoding (ExecuteFn addressA 1 ''0x'' 0)"
  let ?args = "sampleArgs [] EnableMode"
  obtain v where v: "signerToSessionKeyValidator ?env ?args = Inr v"
    using isOk_obtain [OF sample_construction] by blast
  have g: "givenPermissions ?args = []" by (simp add: givenPermissions_def sampleArgs_def)
  have "getHexRoot (merkleTree v) = zeroWord \<and> getEncodedPermissionProofData ?env v ''0x'' = Inr ''0x''"
    using C2_no_permissions_need_no_proof [OF v g, of "''0x''" "sampleUserOperation ''0x''" None]
    by (simp add: zeroWord_def)
  with v g show ?thesis by simp
qed

lemma mapE_Inr_set:
  "mapE f xs = Inr ys \<Longrightarrow> x \<in> set xs \<Longrightarrow> \<exists>y\<in>set ys. f x = Inr y"
proof (induction xs arbitrary: ys)
  case Nil then show ?case by simp
next
  case (Cons a xs)
  from Cons.prems(1) obtain b bs where b: "f a = Inr b" and bs: "mapE f xs = Inr bs"
    and ys: "ys = b # bs"
    by (cases "f a"; cases "mapE f xs") auto
  show ?case
  proof (cases "x = a")
    case True with b ys show ?thesis by simp
  next
    case False
    with Cons.prems(2) have "x \<in> set xs" by simp
    from Cons.IH [OF bs this] ys show ?thesis by auto
  qed
qed

lemma zip_calls:
  "zip (map (\<lambda>(to, val, d). to) calls)
       (zip (map (\<lambda>(to, val, d). d) calls) (map (\<lambda>(to, val, d). val) calls))
     = map (\<lambda>(to, val, d). (to, d, val)) calls"
  by (induction calls) auto

lemma filterPermissions_unmatched:
  assumes "c \<in> set calls" and "unmatched ps c"
  shows "filterPermissions ps (map (\<lambda>(to, val, d). to) calls)
           (map (\<lambda>(to, val, d). d) calls) (map (\<lambda>(to, val, d). val) calls)
         \<noteq> Inr (Some found)"
proof
  let ?f = "\<lambda>(tgt, d, v). filterPermissionsFor ps tgt d v"
  assume a: "filterPermissions ps (map (\<lambda>(to, val, d). to) calls)
           (map (\<lambda>(to, val, d). d) calls) (map (\<lambda>(to, val, d). val) calls)
         = Inr (Some found)"
  then obtain ys where ys: "mapE ?f (map (\<lambda>(to, val, d). (to, d, val)) calls) = Inr ys"
    and all: "list_all (\<lambda>p. p \<noteq> None) ys"
    unfolding filterPermissions_def zip_calls
    by (cases "mapE ?f (map (\<lambda>(to, val, d). (to, d, val)) calls)")
       (auto split: if_splits simp del: not_None_eq)
  obtain to val d where c: "c = (to, val, d)" by (cases c) auto
  have "(to, d, val) \<in> set (map (\<lambda>(to, val, d). (to, d, val)) calls)"
    using assms(1) c by force
  from mapE_Inr_set [OF ys this] obtain y where y: "y \<in> set ys"
    and fy: "filterPermissionsFor ps to d val = Inr y" by auto
  from all y have "y \<noteq> None" by (simp add: list_all_iff)
  then obtain p where "y = Some p" by auto
  with fy assms(2) c show False by (simp add: unmatched_def)
qed

lemma selector_mismatch:
  assumes "\<forall>p\<in>set ps. toLowerCase (sigOf p) \<noteq> toLowerCase (slice d 0 10)"
  shows "filterPermissionsFor ps t d val = Inr None"
proof -
  have "filterBySignature qs (toLowerCase (slice d 0 10)) = []" if "set qs \<subseteq> set ps" for qs
    using that assms by (auto simp: filterBySignature_def sigOf_def filter_empty_conv)
  then have "filterBySignature (filter P ps) (toLowerCase (slice d 0 10)) = []" for P
    by simp
  then show ?thesis
    by (simp add: filterPermissionsFor_def Let_def)
qed

lemma enable_mode_unsigned:
  assumes "v_mode v = EnableMode" and "pes = None \<or> pes = Some []"
  shows "\<not> isOk (getValidatorSignature env v a pes)"
    and "\<not> isOk (signingPrefix env v op pes)"
proof -
  have m: "\<not> (v_mode v = SudoMode \<or> v_mode v = PluginMode)" using assms(1) by simp
  show g: "\<not> isOk (getValidatorSignature env v a pes)" for a
    unfolding getValidatorSignature_def using assms(2) m
    by (cases "getEnableData env v (Some a)") (auto simp: isOk_def)
  show "\<not> isOk (signingPrefix env v op pes)"
  proof
    assume "isOk (signingPrefix env v op pes)"
    then obtain x where x: "signingPrefix env v op pes = Inr x" using isOk_obtain by blast
    then obtain vs where "getValidatorSignature env v (sender op) pes = Inr vs"
      unfolding signingPrefix_def Let_def by (auto simp: bindE_Inr_iff)
    with g [of "sender op"] show False by (simp add: isOk_def)
  qed
qed


text \<open>
  C3. A validator built with at least one permission, and call data that decodes to an
  \<open>execute\<close> or an \<open>executeBatch\<close> in which some (target, value, data) triple finds
  no permission (the matcher returns nothing for it, or throws): the matcher returns
  nothing for the whole call, the proof data fails with \<open>NoMatchingPermission\<close>, and
  \<open>signUserOperation\<close> returns no signature, whatever the other triples match.
  \<open>signUserOperation\<close> evaluates the signature over the hash, \<open>fixSignedData\<close> and
  \<open>getValidatorSignature\<close> before the proof data. When they return, its error is
  \<open>NoMatchingPermission\<close>; in sudo and plugin mode that is exactly when the signer's
  signature is obtained and parsed. When one of them throws, its error is what
  \<open>signUserOperation\<close> fails with, and it is never \<open>NoMatchingPermission\<close>: so it is
  in enable mode (the default) without an enable signature, where
  \<open>getValidatorSignature\<close> throws. \<open>keccak256\<close> is taken never to return the zero
  word, so the root of the permission tree is not the sentinel's.
\<close>

theorem C3_unmatched_call_is_not_signed:
  assumes built: "signerToSessionKeyValidator env args = Inr v"
    and some: "givenPermissions args \<noteq> []"
    and hash: "\<forall>y. bufferify (keccak256 env y) \<noteq> zeroWord"
    and decoded: "decodeFunctionData env (callData op) = Inr (ExecuteFn to val d opn)
                    \<and> calls = [(to, val, d)]
                  \<or> decodeFunctionData env (callData op) = Inr (ExecuteBatchFn calls)"
    and bad: "\<exists>c\<in>set calls. unmatched (permissionsOf (v_sessionKeyData v)) c"
  shows "findMatchingPermissions env v (callData op) = Undefined
       \<and> getEncodedPermissionProofData env v (callData op) = Inl NoMatchingPermission
       \<and> \<not> isOk (sessionKey_signUserOperation env v op pes)
       \<and> sessionKey_signUserOperation env v op pes
           = bindE (signingPrefix env v op pes) (\<lambda>x. Inl NoMatchingPermission)
       \<and> (isOk (signingPrefix env v op pes)
            \<longrightarrow> sessionKey_signUserOperation env v op pes = Inl NoMatchingPermission)
       \<and> (\<forall>e. signingPrefix env v op pes = Inl e
            \<longrightarrow> sessionKey_signUserOperation env v op pes = Inl e \<and> e \<noteq> NoMatchingPermission)
       \<and> (v_mode v = EnableMode \<and> (pes = None \<or> pes = Some [])
            \<longrightarrow> sessionKey_signUserOperation env v op pes \<noteq> Inl NoMatchingPermission)
       \<and> (v_mode v = SudoMode \<or> v_mode v = PluginMode
            \<longrightarrow> (sessionKey_signUserOperation env v op pes = Inl NoMatchingPermission)
                  = isOk (bindE (ext (signMessage env (v_signer v)
                                        (getUserOperationHash env (op \<lparr> signature := ''0x'' \<rparr>)
                                           (v_entryPoint v) (v_chainId v))))
                            (fixSignedData env)))"
proof -
  let ?ps = "permissionsOf (v_sessionKeyData v)"
  obtain c where c: "c \<in> set calls" "unmatched ?ps c" using bad by blast
  have und: "findMatchingPermissions env v (callData op) = Undefined"
  proof (cases "decodeFunctionData env (callData op) = Inr (ExecuteBatchFn calls)")
    case True
    have "filterPermissions ?ps (map (\<lambda>(to, val, d). to) calls)
           (map (\<lambda>(to, val, d). d) calls) (map (\<lambda>(to, val, d). val) calls)
         \<noteq> Inr (Some found)" for found
      by (rule filterPermissions_unmatched [OF c])
    then show ?thesis
      unfolding findMatchingPermissions_def True
      by (auto split: sum.splits option.splits)
  next
    case False
    with decoded have d: "decodeFunctionData env (callData op) = Inr (ExecuteFn to val d opn)"
      and cs: "calls = [(to, val, d)]" by simp_all
    from c cs have "unmatched ?ps (to, val, d)" by simp
    then have "\<forall>p. filterPermissionsFor ?ps to d val \<noteq> Inr (Some p)"
      by (auto simp: unmatched_def)
    then show ?thesis
      unfolding findMatchingPermissions_def d filterPermissions_single
      by (auto split: sum.splits option.splits list.splits)
  qed
  from validator_tree(2) [OF built some] hashed_root [OF hash]
  have root: "getHexRoot (merkleTree v) \<noteq> zeroWord" by auto
  have pd: "getEncodedPermissionProofData env v (callData op) = Inl NoMatchingPermission"
    using und root by (simp add: proofData_NoMatching_iff)
  have steps: "sessionKey_signUserOperation env v op pes
           = bindE (signingPrefix env v op pes) (\<lambda>x. Inl NoMatchingPermission)"
    unfolding signUserOperation_steps pd by (simp add: case_prod_unfold)
  have no: "\<not> isOk (sessionKey_signUserOperation env v op pes)"
    unfolding steps by (cases "signingPrefix env v op pes") (simp_all add: isOk_def)
  have ok: "isOk (signingPrefix env v op pes)
            \<longrightarrow> sessionKey_signUserOperation env v op pes = Inl NoMatchingPermission"
    unfolding steps by (cases "signingPrefix env v op pes") (simp_all add: isOk_def)
  have early: "\<forall>e. signingPrefix env v op pes = Inl e
            \<longrightarrow> sessionKey_signUserOperation env v op pes = Inl e \<and> e \<noteq> NoMatchingPermission"
    unfolding steps using signingPrefix_not_NoMatching [of env v op pes] by auto
  have iff: "(sessionKey_signUserOperation env v op pes = Inl NoMatchingPermission)
               = isOk (signingPrefix env v op pes)"
    unfolding steps using signingPrefix_not_NoMatching [of env v op pes]
    by (cases "signingPrefix env v op pes") (simp_all add: isOk_def)
  have enable: "v_mode v = EnableMode \<and> (pes = None \<or> pes = Some [])
            \<longrightarrow> sessionKey_signUserOperation env v op pes \<noteq> Inl NoMatchingPermission"
    unfolding iff using enable_mode_unsigned(2) [of v pes env op] by blast
  have sudo: "v_mode v = SudoMode \<or> v_mode v = PluginMode
            \<longrightarrow> (sessionKey_signUserOperation env v op pes = Inl NoMatchingPermission)
                  = isOk (bindE (ext (signMessage env (v_signer v)
                                        (getUserOperationHash env (op \<lparr> signature := ''0x'' \<rparr>)
                                           (v_entryPoint v) (v_chainId v))))
                            (fixSignedData env))"
  proof
    assume m: "v_mode v = SudoMode \<or> v_mode v = PluginMode"
    let ?sg = "ext (signMessage env (v_signer v)
                      (getUserOperationHash env (op \<lparr> signature := ''0x'' \<rparr>)
                         (v_entryPoint v) (v_chainId v)))"
    have vs: "getValidatorSignature env v (sender op) pes = Inr (modeBytes env (v_mode v))"
      using m by (simp add: getValidatorSignature_def)
    have "isOk (signingPrefix env v op pes) = isOk (bindE ?sg (fixSignedData env))"
      unfolding signingPrefix_def Let_def vs
    proof (cases ?sg)
      case (Inl e) then show "isOk (bindE ?sg (\<lambda>sg. bindE (fixSignedData env sg)
          (\<lambda>fixedSignature. bindE (Inr (modeBytes env (v_mode v)))
             (\<lambda>validatorSignature. Inr (validatorSignature, fixedSignature)))))
         = isOk (bindE ?sg (fixSignedData env))" by (simp add: isOk_def)
    next
      case (Inr sg) then show "isOk (bindE ?sg (\<lambda>sg. bindE (fixSignedData env sg)
          (\<lambda>fixedSignature. bindE (Inr (modeBytes env (v_mode v)))
             (\<lambda>validatorSignature. Inr (validatorSignature, fixedSignature)))))
         = isOk (bindE ?sg (fixSignedData env))"
        by (cases "fixSignedData env sg") (simp_all add: isOk_def)
    qed
    with iff show "(sessionKey_signUserOperation env v op pes = Inl NoMatchingPermission)
                  = isOk (bindE ?sg (fixSignedData env))" by simp
  qed
  from und pd no steps ok early enable sudo show ?thesis by blast
qed




theorem C3_unmatched_call_is_not_signed_witness:
  "givenPermissions (sampleArgs [sampleOther] SudoMode) \<noteq> []
   \<and> (\<forall>y. bufferify (keccak256 (sampleEnvDecoding (ExecuteFn addressA 0 ''0xbbbbbbbb'' 0)) y)
             \<noteq> zeroWord)
   \<and> unmatched [withDefaults sampleOther 0] (addressA, 0, ''0xbbbbbbbb'')
   \<and> bindE (signerToSessionKeyValidator
               (sampleEnvDecoding (ExecuteFn addressA 0 ''0xbbbbbbbb'' 0))
               (sampleArgs [sampleOther] SudoMode))
        (\<lambda>v. sessionKey_signUserOperation
                 (sampleEnvDecoding (ExecuteFn addressA 0 ''0xbbbbbbbb'' 0)) v
                 (sampleUserOperation ''0x'') None)
       = Inl NoMatchingPermission"
proof -
  let ?env = "sampleEnvDecoding (ExecuteFn addressA 0 ''0xbbbbbbbb'' 0)"
  let ?args = "sampleArgs [sampleOther] SudoMode"
  let ?op = "sampleUserOperation ''0x''"
  obtain v where v: "signerToSessionKeyValidator ?env ?args = Inr v"
    using isOk_obtain [OF sample_construction] by blast
  have g: "givenPermissions ?args = [sampleOther]"
    by (simp add: givenPermissions_def sampleArgs_def)
  then have some: "givenPermissions ?args \<noteq> []" by simp
  have hash: "\<forall>y. bufferify (keccak256 ?env y) \<noteq> zeroWord"
    by (simp add: sampleEnvDecoding_fields sampleHash_not_zero)
  have ps: "permissionsOf (v_sessionKeyData v) = [withDefaults sampleOther 0]"
    unfolding validator_sessionKeyData(2) [OF v] normalisedPermissions_def g by simp
  have "filterPermissionsFor [withDefaults sampleOther 0] addressA ''0xbbbbbbbb'' 0 = Inr None"
    by (rule selector_mismatch)
       (simp add: withDefaults_fields sigOf_def sampleOther_def samplePermission_def slice_def
          toLowerCase_def toLowerChar_def)
  then have un: "unmatched [withDefaults sampleOther 0] (addressA, 0, ''0xbbbbbbbb'')"
    by (simp add: unmatched_def)
  have dec: "decodeFunctionData ?env (callData ?op) = Inr (ExecuteFn addressA 0 ''0xbbbbbbbb'' 0)
               \<and> [(addressA, 0, ''0xbbbbbbbb'')] = [(addressA, 0, ''0xbbbbbbbb'')]
             \<or> decodeFunctionData ?env (callData ?op)
                  = Inr (ExecuteBatchFn [(addressA, 0, ''0xbbbbbbbb'')])"
    by (simp add: sampleEnvDecoding_fields)
  have bad: "\<exists>c\<in>set [(addressA, 0, ''0xbbbbbbbb'')]. unmatched (permissionsOf (v_sessionKeyData v)) c"
    using un by (simp add: ps)
  have m: "v_mode v = SudoMode" using validator_fields(1) [OF v] by (simp add: sampleArgs_def)
  obtain x where x: "signingPrefix ?env v ?op None = Inr x"
    using isOk_obtain [OF sample_prefix_ok [OF m]] by blast
  have "sessionKey_signUserOperation ?env v ?op None
          = bindE (signingPrefix ?env v ?op None) (\<lambda>x. Inl NoMatchingPermission)"
    using C3_unmatched_call_is_not_signed [OF v some hash dec bad, of None] by simp
  then have "sessionKey_signUserOperation ?env v ?op None = Inl NoMatchingPermission"
    by (simp add: x)
  with v some hash un show ?thesis by simp
qed

lemma sampleEnvDecoding_chain:
  "readNonces (sampleEnvDecoding c) = (\<lambda>validator account. Inr (0, 0))"
  by (simp add: sampleEnvDecoding_def sampleEnv_def)

lemma toString16_digit: "n < 16 \<Longrightarrow> toString16 n = [hexDigitChar n]"
  by (subst toString16.simps) simp

lemma pad_small_numbers:
  "bindE (toHexNumber 0) (\<lambda>h. pad h 6) = Inr (''0x'' @ replicate 11 CHR ''0'' @ ''0'')"
  "pad (numberToHex (Suc 0)) 32 = Inr (''0x'' @ replicate 63 CHR ''0'' @ ''1'')"
  by (simp_all add: toHexNumber_def numberToHex_def toString16_digit hexDigitChar_def pad_def)

lemma sample_enable_data:
  assumes "signerToSessionKeyValidator (sampleEnvDecoding c) args = Inr v"
    and "sessionKeyData (validatorData args)
           = Some \<lparr> validUntil = None, validAfter = None, paymaster = None,
                    permissions = Some ps \<rparr>"
    and "a \<noteq> []"
  shows "isOk (getEnableData (sampleEnvDecoding c) v (Some a))"
proof -
  let ?env = "sampleEnvDecoding c"
  have w: "wordShaped (getHexRoot (merkleTree v))"
    by (rule validator_root_word [OF assms(1)]) (simp add: sampleEnvDecoding_fields sampleHash_word)
  have skd: "validAfter (v_sessionKeyData v) = Some 0" "validUntil (v_sessionKeyData v) = Some 0"
    unfolding validator_sessionKeyData(1) [OF assms(1)] normalisedSessionKeyData_def Let_def
    by (simp_all add: assms(2))
  note p6 = pad_small_numbers(1) and p32 = pad_small_numbers(2)
  show ?thesis
    unfolding getEnableData_def getSessionNonces_def sampleEnvDecoding_chain
    using assms(3) by (simp add: Let_def pad_word [OF w] skd p6 p32 isOk_def)
qed

lemma sample_signed_ok:
  "\<exists>sg fs. ext (signMessage (sampleEnvDecoding c) a
                (getUserOperationHash (sampleEnvDecoding c)
                   ((sampleUserOperation ''0x'') \<lparr> signature := ''0x'' \<rparr>) ep cid)) = Inr sg
          \<and> fixSignedData (sampleEnvDecoding c) sg = Inr fs"
proof -
  let ?env = "sampleEnvDecoding c"
  have h: "getUserOperationHash ?env ((sampleUserOperation ''0x'') \<lparr> signature := ''0x'' \<rparr>)
             ep cid = sampleUserOpHash"
    by (simp add: sampleEnvDecoding_signing sampleUserOpHash_def)
  have sg: "ext (signMessage ?env a sampleUserOpHash) = Inr sampleSigned"
    by (simp add: sampleEnvDecoding_signing sampleSigned_def)
  have hx: "isHex sampleSigned" by code_simp
  have ok: "isOk (bindE (ext (viem_hexToSignature sampleSigned))
          (\<lambda>parsed. ext (viem_signatureToHex
             (parsed \<lparr> sig_v := (if sig_v parsed = 0 \<or> sig_v parsed = 1 then sig_v parsed + 27
                                  else sig_v parsed) \<rparr>))))"
    by code_simp
  have "isOk (fixSignedData ?env sampleSigned)"
    unfolding fixSignedData_def Let_def sampleEnvDecoding_signing using hx ok by simp
  then obtain fs where fs: "fixSignedData ?env sampleSigned = Inr fs"
    using isOk_obtain by blast
  show ?thesis unfolding h sg using fs by simp
qed

text \<open>
  The validator of the one permission on selector \<open>0xaaaaaaaa\<close>, built without a mode
  (so in enable mode), and an \<open>execute\<close> call to the permission's target with
  selector \<open>0xbbbbbbbb\<close>: the call matches no permission, and \<open>signUserOperation\<close>
  without an enable signature fails with \<open>EnableSignatureNotSet\<close>, not with
  \<open>NoMatchingPermission\<close>.
\<close>

theorem C3_enable_signature_counterexample:
  "givenPermissions ((sampleArgs [sampleOther] EnableMode) \<lparr> mode := None \<rparr>) = [sampleOther]
   \<and> unmatched [withDefaults sampleOther 0] (addressA, 0, ''0xbbbbbbbb'')
   \<and> bindE (signerToSessionKeyValidator
               (sampleEnvDecoding (ExecuteFn addressA 0 ''0xbbbbbbbb'' 0))
               ((sampleArgs [sampleOther] EnableMode) \<lparr> mode := None \<rparr>))
        (\<lambda>v. Inr (permissionsOf (v_sessionKeyData v),
                   findMatchingPermissions
                     (sampleEnvDecoding (ExecuteFn addressA 0 ''0xbbbbbbbb'' 0)) v ''0x''))
       = Inr ([withDefaults sampleOther 0], Undefined)
   \<and> bindE (signerToSessionKeyValidator
               (sampleEnvDecoding (ExecuteFn addressA 0 ''0xbbbbbbbb'' 0))
               ((sampleArgs [sampleOther] EnableMode) \<lparr> mode := None \<rparr>))
        (\<lambda>v. sessionKey_signUserOperation
                 (sampleEnvDecoding (ExecuteFn addressA 0 ''0xbbbbbbbb'' 0)) v
                 (sampleUserOperation ''0x'') None)
       = Inl EnableSignatureNotSet"
proof -
  let ?env = "sampleEnvDecoding (ExecuteFn addressA 0 ''0xbbbbbbbb'' 0)"
  let ?args = "(sampleArgs [sampleOther] EnableMode) \<lparr> mode := None \<rparr>"
  let ?op = "sampleUserOperation ''0x''"
  obtain v where v: "signerToSessionKeyValidator ?env ?args = Inr v"
    using isOk_obtain [OF sample_construction] by blast
  have g: "givenPermissions ?args = [sampleOther]"
    by (simp add: givenPermissions_def sampleArgs_def)
  have ps: "permissionsOf (v_sessionKeyData v) = [withDefaults sampleOther 0]"
    unfolding validator_sessionKeyData(2) [OF v] normalisedPermissions_def g by simp
  have f: "filterPermissionsFor [withDefaults sampleOther 0] addressA ''0xbbbbbbbb'' 0 = Inr None"
    by (rule selector_mismatch)
       (simp add: withDefaults_fields sigOf_def sampleOther_def samplePermission_def slice_def
          toLowerCase_def toLowerChar_def)
  then have un: "unmatched [withDefaults sampleOther 0] (addressA, 0, ''0xbbbbbbbb'')"
    by (simp add: unmatched_def)
  have und: "findMatchingPermissions ?env v ''0x'' = Undefined"
    unfolding findMatchingPermissions_def ps filterPermissions_single
    by (simp add: sampleEnvDecoding_fields f)
  have m: "v_mode v = EnableMode" using validator_fields(1) [OF v] by (simp add: sampleArgs_def)
  have "isOk (getEnableData ?env v (Some (sender ?op)))"
    by (rule sample_enable_data [OF v]) (simp_all add: sampleArgs_def sampleUserOperation_def)
  then obtain ed where ed: "getEnableData ?env v (Some (sender ?op)) = Inr ed"
    using isOk_obtain by blast
  have vs: "getValidatorSignature ?env v (sender ?op) None = Inl EnableSignatureNotSet"
    unfolding getValidatorSignature_def ed using m by simp
  obtain sg fs where sg: "ext (signMessage ?env (v_signer v)
                (getUserOperationHash ?env (?op \<lparr> signature := ''0x'' \<rparr>)
                   (v_entryPoint v) (v_chainId v))) = Inr sg"
    and fs: "fixSignedData ?env sg = Inr fs"
    using sample_signed_ok by blast
  have "sessionKey_signUserOperation ?env v ?op None = Inl EnableSignatureNotSet"
    unfolding sessionKey_signUserOperation_def Let_def sg bindE_simps fs vs ..
  with v g un ps und show ?thesis by simp
qed

section \<open>The ECDSA validator\<close>

lemma sampleEnv_fields:
  "hexToSignature sampleEnv = viem_hexToSignature"
  "signatureToHex sampleEnv = viem_signatureToHex"
  "encodeFunctionData sampleEnv = sampleEncodeFunctionData"
  "signMessage sampleEnv = (\<lambda>account hash. Inr (concatHex [hash, hash, ''0x00'']))"
  "getUserOperationHash sampleEnv
     = (\<lambda>userOperation ep chainId.
          sampleHash (concatHex [sender userOperation, callData userOperation,
                                 signature userOperation]))"
  by (simp_all add: sampleEnv_def)

lemma pad_address:
  assumes "isHex a" "length a = 42"
  shows "pad a 32 = Inr (''0x'' @ replicate 24 CHR ''0'' @ drop 2 a)"
    and "pad a 32 \<noteq> Inr a"
proof -
  from isHex_split [OF assms(1)] have a: "a = ''0x'' @ drop 2 a" by (rule conjunct1)
  have r: "replace0x a = drop 2 a" by (subst a) (simp only: replace0x_prefixed)
  have l: "length (drop 2 a) = 40" using assms(2) by simp
  show p: "pad a 32 = Inr (''0x'' @ replicate 24 CHR ''0'' @ drop 2 a)"
    by (simp add: pad_def r assms(2) Let_def)
  have "length (''0x'' @ replicate 24 CHR ''0'' @ drop 2 a) = 66" using l by simp
  then have "length (''0x'' @ replicate 24 CHR ''0'' @ drop 2 a) \<noteq> length a"
    using assms(2) by simp
  then have "''0x'' @ replicate 24 CHR ''0'' @ drop 2 a \<noteq> a" by metis
  with p show "pad a 32 \<noteq> Inr a" by simp
qed

text \<open>
  C4, as the code has it. \<open>getEnableData\<close> of an ECDSA validator returns the signer's
  address as it was given, through the plugin interface too. It is not padded: for an
  address (\<open>0x\<close> and 40 hex digits, 20 bytes) the 32-byte padding has 24 more zeros
  and differs from what \<open>getEnableData\<close> returns.
\<close>

theorem C4_getEnableData_is_the_signer_address:
  assumes built: "signerToEcdsaValidator env client args = Inr v"
  shows "ecdsa_getEnableData v = Inr (e_signer args)
       \<and> plugin_getEnableData (ecdsaPlugin env v) kernelAccountAddress = Inr (e_signer args)
       \<and> (isHex (e_signer args) \<and> length (e_signer args) = 42 \<longrightarrow>
            length (e_signer args) = 2 + 2 * 20
          \<and> pad (e_signer args) 32 = Inr (''0x'' @ replicate 24 CHR ''0'' @ drop 2 (e_signer args))
          \<and> ecdsa_getEnableData v \<noteq> pad (e_signer args) 32)"
proof -
  have s: "viemSigner v = e_signer args"
    using built by (auto simp: signerToEcdsaValidator_def split: option.splits)
  have e: "ecdsa_getEnableData v = Inr (e_signer args)" by (simp add: ecdsa_getEnableData_def s)
  show ?thesis
    using pad_address [of "e_signer args"]
    by (auto simp: e ecdsaPlugin_def)
qed

theorem C4_getEnableData_is_the_signer_address_witness:
  "isOk (signerToEcdsaValidator sampleEnv sampleClient sampleEcdsaArgs)
   \<and> isHex (e_signer sampleEcdsaArgs) \<and> length (e_signer sampleEcdsaArgs) = 42
   \<and> bindE (signerToEcdsaValidator sampleEnv sampleClient sampleEcdsaArgs) ecdsa_getEnableData
       = Inr sampleSigner"
proof -
  have ok: "isOk (signerToEcdsaValidator sampleEnv sampleClient sampleEcdsaArgs)"
    by (simp add: signerToEcdsaValidator_def sampleClient_def isOk_def)
  then obtain v where v: "signerToEcdsaValidator sampleEnv sampleClient sampleEcdsaArgs = Inr v"
    using isOk_obtain by blast
  have h: "isHex (e_signer sampleEcdsaArgs)" "length (e_signer sampleEcdsaArgs) = 42"
    by code_simp+
  have "ecdsa_getEnableData v = Inr (e_signer sampleEcdsaArgs)"
    using C4_getEnableData_is_the_signer_address [OF v] by simp
  then have "ecdsa_getEnableData v = Inr sampleSigner" by (simp add: sampleEcdsaArgs_def)
  with ok v h show ?thesis by simp
qed

text \<open>
  C4 as stated fails: for the signer \<open>0x5ff1...2789\<close> the validator returns these 20
  bytes, not their padding to 32 bytes.
\<close>

theorem C4_getEnableData_padded_counterexample:
  "bindE (signerToEcdsaValidator sampleEnv sampleClient sampleEcdsaArgs) ecdsa_getEnableData
     = Inr ''0x5ff137d4b0fdcd49dca30c7cf57e578a026d2789''
   \<and> pad (e_signer sampleEcdsaArgs) 32
     = Inr ''0x0000000000000000000000005ff137d4b0fdcd49dca30c7cf57e578a026d2789''
   \<and> bindE (signerToEcdsaValidator sampleEnv sampleClient sampleEcdsaArgs) ecdsa_getEnableData
     \<noteq> pad (e_signer sampleEcdsaArgs) 32"
proof -
  have a: "bindE (signerToEcdsaValidator sampleEnv sampleClient sampleEcdsaArgs) ecdsa_getEnableData
     = Inr ''0x5ff137d4b0fdcd49dca30c7cf57e578a026d2789''"
    by (simp add: signerToEcdsaValidator_def sampleClient_def sampleEcdsaArgs_def
          ecdsa_getEnableData_def sampleSigner_def)
  have b: "pad (e_signer sampleEcdsaArgs) 32
     = Inr ''0x0000000000000000000000005ff137d4b0fdcd49dca30c7cf57e578a026d2789''"
    by code_simp
  show ?thesis unfolding a b by simp
qed

text \<open>
  C8. \<open>signUserOperation\<close> of the ECDSA validator hashes the operation with its
  signature field set to \<open>0x\<close>, has the signer sign that hash, and returns the four
  zero bytes of the sudo mode followed by the signature. The result does not depend on
  the signature field of the operation passed in, and whenever bytes are returned their
  first ten characters are \<open>0x00000000\<close>.
\<close>

theorem C8_ecdsa_signature_has_sudo_prefix:
  "ecdsa_signUserOperation env v op
     = bindE (ext (signMessage env (viemSigner v)
                     (getUserOperationHash env (op \<lparr> signature := ''0x'' \<rparr>)
                        (ecdsa_entryPoint v) (ecdsa_chainId v))))
         (\<lambda>sg. Inr (''0x00000000'' @ replace0x sg))
   \<and> ecdsa_signUserOperation env v (op \<lparr> signature := s \<rparr>) = ecdsa_signUserOperation env v op
   \<and> (case ecdsa_signUserOperation env v op of
         Inl e \<Rightarrow> True
       | Inr out \<Rightarrow> take 10 out = ''0x00000000'')"
proof -
  let ?sg = "ext (signMessage env (viemSigner v)
                     (getUserOperationHash env (op \<lparr> signature := ''0x'' \<rparr>)
                        (ecdsa_entryPoint v) (ecdsa_chainId v)))"
  have a: "ecdsa_signUserOperation env v op
             = bindE ?sg (\<lambda>sg. Inr (''0x00000000'' @ replace0x sg))"
    by (simp add: ecdsa_signUserOperation_def Let_def concatHex_def)
  have b: "ecdsa_signUserOperation env v (op \<lparr> signature := s \<rparr>) = ecdsa_signUserOperation env v op"
    by (simp add: ecdsa_signUserOperation_def Let_def)
  have c: "(case ecdsa_signUserOperation env v op of
         Inl e \<Rightarrow> True | Inr out \<Rightarrow> take 10 out = ''0x00000000'')"
    unfolding a by (cases ?sg) simp_all
  from a b c show ?thesis by simp
qed

theorem C8_ecdsa_signature_has_sudo_prefix_witness:
  "ecdsa_signUserOperation sampleEnv sampleEcdsa
      ((sampleUserOperation ''0x'') \<lparr> signature := ''0xdeadbeef'' \<rparr>)
     = Inr (''0x00000000'' @ replace0x sampleSigned)"
proof -
  let ?op = "(sampleUserOperation ''0x'') \<lparr> signature := ''0xdeadbeef'' \<rparr>"
  have "ecdsa_signUserOperation sampleEnv sampleEcdsa ?op
     = bindE (ext (signMessage sampleEnv (viemSigner sampleEcdsa)
                     (getUserOperationHash sampleEnv (?op \<lparr> signature := ''0x'' \<rparr>)
                        (ecdsa_entryPoint sampleEcdsa) (ecdsa_chainId sampleEcdsa))))
         (\<lambda>sg. Inr (''0x00000000'' @ replace0x sg))"
    using C8_ecdsa_signature_has_sudo_prefix [of sampleEnv sampleEcdsa ?op] by (rule conjunct1)
  then show ?thesis
    by (simp add: sampleEnv_fields sampleSigned_def sampleUserOpHash_def)
qed

section \<open>Encoding calls and normalising signatures\<close>

text \<open>
  C5. What \<open>encodeCallData\<close> does: a single transaction is encoded as
  \<open>execute(to, value, data, 0)\<close>, a list as \<open>executeBatch\<close> of the (to, value, data)
  triples. The operation flag is the constant 0 whatever the request asks for: a
  transaction that asks for a delegate call is encoded exactly as the one that asks for
  a call.
\<close>

theorem C5_encodeCallData_encodes_flag_zero:
  "encodeCallData env (OneTx tx)
     = ext (encodeFunctionData env (ExecuteFn (tx_to tx) (tx_value tx) (tx_data tx) 0))
   \<and> encodeCallData env (ManyTx txs)
     = ext (encodeFunctionData env
              (ExecuteBatchFn (map (\<lambda>tx. (tx_to tx, tx_value tx, tx_data tx)) txs)))
   \<and> encodeCallData env (OneTx (tx \<lparr> callType := Some delegatecall \<rparr>))
     = encodeCallData env (OneTx (tx \<lparr> callType := Some call \<rparr>))"
  by (simp add: encodeCallData_def)

text \<open>
  The transaction to the zero address of the test suite, once asking for a delegate call
  and once for a call: both are encoded as the same bytes, the selector of \<open>execute\<close>
  followed by the arguments and the flag \<open>00\<close>. The flag of a delegate-call request is
  therefore not distinct from that of a normal call.
\<close>

theorem C5_delegate_flag_counterexample:
  "encodeCallData sampleEnv (OneTx (sampleTx (Some delegatecall)))
     = encodeCallData sampleEnv (OneTx (sampleTx (Some call)))
   \<and> encodeCallData sampleEnv (OneTx (sampleTx (Some delegatecall)))
     = Inr (''0x51945447'' @ replicate 40 CHR ''0'' @ ''00'')
   \<and> encodeCallData sampleEnv (OneTx (sampleTx (Some call)))
     = Inr (''0x51945447'' @ replicate 40 CHR ''0'' @ ''00'')"
proof -
  have e: "ext (encodeFunctionData sampleEnv (ExecuteFn zeroAddress 0 ''0x'' 0))
             = Inr (''0x51945447'' @ replicate 40 CHR ''0'' @ ''00'')"
    unfolding sampleEnv_fields by code_simp
  have s: "encodeCallData sampleEnv (OneTx (sampleTx ct))
             = Inr (''0x51945447'' @ replicate 40 CHR ''0'' @ ''00'')" for ct
    using e by (simp add: encodeCallData_def sampleTx_def)
  show ?thesis by (simp add: s)
qed

lemma fixSignedData_parsed:
  assumes "isHex sg \<or> isHex (''0x'' @ sg)"
    and "hexToSignature env (if isHex sg then sg else ''0x'' @ sg) = Inr parsed"
  shows "fixSignedData env sg
           = ext (signatureToHex env
                    (parsed \<lparr> sig_v := (if sig_v parsed = 0 \<or> sig_v parsed = 1
                                         then sig_v parsed + 27 else sig_v parsed) \<rparr>))"
proof (cases "isHex sg")
  case True
  with assms(2) have "hexToSignature env sg = Inr parsed" by simp
  with True show ?thesis by (simp add: fixSignedData_def Let_def)
next
  case False
  with assms have "isHex (''0x'' @ sg)" "hexToSignature env (''0x'' @ sg) = Inr parsed" by simp_all
  with False show ?thesis by (simp add: fixSignedData_def Let_def)
qed

lemma sig_v_same: "sig_v parsed = k \<Longrightarrow> parsed \<lparr> sig_v := k \<rparr> = parsed"
  by auto

text \<open>
  C9. \<open>fixSignedData\<close> fails with \<open>InvalidSignedData\<close> on a string that is not hex
  and is not hex with \<open>0x\<close> in front either. Otherwise the string (with \<open>0x\<close> put in
  front when needed) is parsed, and with \<open>r\<close>, \<open>s\<close>, \<open>v\<close> the parsed signature:
  for \<open>v = 0\<close> the result is the encoding of \<open>r\<close>, \<open>s\<close>, 27, for \<open>v = 1\<close> that of
  \<open>r\<close>, \<open>s\<close>, 28, and for \<open>v = 27\<close> or \<open>v = 28\<close> that of \<open>r\<close>, \<open>s\<close>, \<open>v\<close>
  unchanged. The parser and the printer are viem's and are parameters here.
\<close>

theorem C9_fixSignedData_normalises_v:
  "(\<not> isHex sg \<and> \<not> isHex (''0x'' @ sg) \<longrightarrow> fixSignedData env sg = Inl (InvalidSignedData sg))
   \<and> ((isHex sg \<or> isHex (''0x'' @ sg))
        \<and> hexToSignature env (if isHex sg then sg else ''0x'' @ sg) = Inr parsed \<longrightarrow>
         (sig_v parsed = 0 \<longrightarrow>
            fixSignedData env sg = ext (signatureToHex env (parsed \<lparr> sig_v := 27 \<rparr>)))
       \<and> (sig_v parsed = 1 \<longrightarrow>
            fixSignedData env sg = ext (signatureToHex env (parsed \<lparr> sig_v := 28 \<rparr>)))
       \<and> (sig_v parsed = 27 \<or> sig_v parsed = 28 \<longrightarrow>
            fixSignedData env sg = ext (signatureToHex env parsed)))"
proof (intro conjI impI)
  assume "\<not> isHex sg \<and> \<not> isHex (''0x'' @ sg)"
  then show "fixSignedData env sg = Inl (InvalidSignedData sg)"
    by (simp add: fixSignedData_def)
next
  assume a: "(isHex sg \<or> isHex (''0x'' @ sg))
        \<and> hexToSignature env (if isHex sg then sg else ''0x'' @ sg) = Inr parsed"
  note eq = fixSignedData_parsed [OF conjunct1 [OF a] conjunct2 [OF a]]
  {
    assume "sig_v parsed = 0"
    then show "fixSignedData env sg = ext (signatureToHex env (parsed \<lparr> sig_v := 27 \<rparr>))"
      unfolding eq by simp
  next
    assume "sig_v parsed = 1"
    then show "fixSignedData env sg = ext (signatureToHex env (parsed \<lparr> sig_v := 28 \<rparr>))"
      unfolding eq by simp
  next
    assume "sig_v parsed = 27 \<or> sig_v parsed = 28"
    then have "(if sig_v parsed = 0 \<or> sig_v parsed = 1 then sig_v parsed + 27 else sig_v parsed)
                 = sig_v parsed" by auto
    then show "fixSignedData env sg = ext (signatureToHex env parsed)"
      unfolding eq by (simp only: sig_v_same [OF refl])
  }
qed

theorem C9_fixSignedData_normalises_v_witness:
  "fixSignedData sampleEnv (sampleSignature ''00'') = Inr (sampleSignature ''1b'')
   \<and> fixSignedData sampleEnv (sampleSignature ''01'') = Inr (sampleSignature ''1c'')
   \<and> fixSignedData sampleEnv (sampleSignature ''1b'') = Inr (sampleSignature ''1b'')
   \<and> fixSignedData sampleEnv (sampleSignature ''1c'') = Inr (sampleSignature ''1c'')
   \<and> fixSignedData sampleEnv (drop 2 (sampleSignature ''01'')) = Inr (sampleSignature ''1c'')
   \<and> fixSignedData sampleEnv ''signature'' = Inl (InvalidSignedData ''signature'')"
proof -
  let ?p = "\<lambda>n. \<lparr> sig_r = ''0x'' @ replicate 64 CHR ''1'', sig_s = ''0x'' @ replicate 64 CHR ''2'',
                  sig_v = n \<rparr>"
  have hx: "isHex (sampleSignature ''00'')" "isHex (sampleSignature ''01'')"
    "isHex (sampleSignature ''1b'')" "isHex (sampleSignature ''1c'')"
    "\<not> isHex (drop 2 (sampleSignature ''01''))" "isHex (''0x'' @ drop 2 (sampleSignature ''01''))"
    "\<not> isHex ''signature''" "\<not> isHex (''0x'' @ ''signature'')"
    by code_simp+
  have parse: "viem_hexToSignature (sampleSignature ''00'') = Inr (?p 0)"
    "viem_hexToSignature (sampleSignature ''01'') = Inr (?p 1)"
    "viem_hexToSignature (sampleSignature ''1b'') = Inr (?p 27)"
    "viem_hexToSignature (sampleSignature ''1c'') = Inr (?p 28)"
    "viem_hexToSignature (''0x'' @ drop 2 (sampleSignature ''01'')) = Inr (?p 1)"
    by code_simp+
  have print: "viem_signatureToHex (?p 27) = Inr (sampleSignature ''1b'')"
    "viem_signatureToHex (?p 28) = Inr (sampleSignature ''1c'')"
    by code_simp+
  note thm0 = C9_fixSignedData_normalises_v [of "sampleSignature ''00''" sampleEnv "?p 0"]
  note thm1 = C9_fixSignedData_normalises_v [of "sampleSignature ''01''" sampleEnv "?p 1"]
  note thm27 = C9_fixSignedData_normalises_v [of "sampleSignature ''1b''" sampleEnv "?p 27"]
  note thm28 = C9_fixSignedData_normalises_v [of "sampleSignature ''1c''" sampleEnv "?p 28"]
  note thmp = C9_fixSignedData_normalises_v [of "drop 2 (sampleSignature ''01'')" sampleEnv "?p 1"]
  note thmb = C9_fixSignedData_normalises_v [of "''signature''" sampleEnv "?p 0"]
  have a: "fixSignedData sampleEnv (sampleSignature ''00'') = Inr (sampleSignature ''1b'')"
    using thm0 hx(1) parse(1) print(1) by (simp add: sampleEnv_fields)
  have b: "fixSignedData sampleEnv (sampleSignature ''01'') = Inr (sampleSignature ''1c'')"
    using thm1 hx(2) parse(2) print(2) by (simp add: sampleEnv_fields)
  have c: "fixSignedData sampleEnv (sampleSignature ''1b'') = Inr (sampleSignature ''1b'')"
    using thm27 hx(3) parse(3) print(1) by (simp add: sampleEnv_fields)
  have d: "fixSignedData sampleEnv (sampleSignature ''1c'') = Inr (sampleSignature ''1c'')"
    using thm28 hx(4) parse(4) print(2) by (simp add: sampleEnv_fields)
  have e: "fixSignedData sampleEnv (drop 2 (sampleSignature ''01'')) = Inr (sampleSignature ''1c'')"
    using thmp hx(5,6) parse(5) print(2) by (simp add: sampleEnv_fields)
  have f: "fixSignedData sampleEnv ''signature'' = Inl (InvalidSignedData ''signature'')"
    using thmb hx(7,8) by simp
  from a b c d e f show ?thesis by simp
qed

section \<open>The kernel account with a session-key default validator\<close>

lemma createKernelAccount_fields:
  assumes "createKernelAccount env args = Inr account"
  shows "account_defaultValidator account = defaultValidator args"
    and "account_plugin account = plugin args"
  using assms unfolding createKernelAccount_def Let_def
  by (auto simp: bindE_Inr_iff split: if_splits)

text \<open>
  C10. \<open>getPluginApproveSignature\<close> of a session-key validator throws
  \<open>Not implemented\<close> for every account address and plugin. So in a kernel account
  whose default validator is a session-key validator and which has a plugin, asking for
  the approval fails, and with it \<open>signUserOperation\<close> and \<open>getDummySignature\<close> of
  the account: no signature is returned.
\<close>

theorem C10_session_key_cannot_approve_a_plugin:
  assumes created: "createKernelAccount env' args = Inr account"
    and dv: "defaultValidator args = sessionKeyPlugin env v"
    and pl: "plugin args = Some active"
  shows "sessionKey_getPluginApproveSignature accountAddr p = Inl NotImplemented
       \<and> plugin_getPluginApproveSignature (sessionKeyPlugin env v)
           = Some sessionKey_getPluginApproveSignature
       \<and> pluginApproval account = Inl NotImplemented
       \<and> kernel_signUserOperation account op = Inl NotImplemented
       \<and> kernel_getDummySignature account op = Inl NotImplemented"
proof -
  have a: "pluginApproval account = Inl NotImplemented"
    unfolding pluginApproval_def createKernelAccount_fields [OF created] dv pl
    by (simp add: sessionKeyPlugin_def sessionKey_getPluginApproveSignature_def)
  show ?thesis
    by (simp add: a kernel_signUserOperation_def kernel_getDummySignature_def
          sessionKeyPlugin_def sessionKey_getPluginApproveSignature_def)
qed

theorem C10_session_key_cannot_approve_a_plugin_witness:
  "bindE (signerToSessionKeyValidator (sampleEnvDecoding (ExecuteFn addressA 0 ''0x'' 0))
            (sampleArgs [] SudoMode))
     (\<lambda>v. bindE (createKernelAccount sampleEnv
                    (sampleKernelArgs
                       (sessionKeyPlugin (sampleEnvDecoding (ExecuteFn addressA 0 ''0x'' 0)) v)
                       (Some (ecdsaPlugin sampleEnv sampleEcdsa))))
             (\<lambda>account. kernel_signUserOperation account (sampleUserOperation ''0x'')))
     = Inl NotImplemented"
proof -
  let ?env = "sampleEnvDecoding (ExecuteFn addressA 0 ''0x'' 0)"
  obtain v where v: "signerToSessionKeyValidator ?env (sampleArgs [] SudoMode) = Inr v"
    using isOk_obtain [OF sample_construction] by blast
  let ?args = "sampleKernelArgs (sessionKeyPlugin ?env v) (Some (ecdsaPlugin sampleEnv sampleEcdsa))"
  have "isOk (createKernelAccount sampleEnv ?args)"
    by (simp add: createKernelAccount_def sampleKernelArgs_def Let_def isOk_def)
  then obtain account where account: "createKernelAccount sampleEnv ?args = Inr account"
    using isOk_obtain by blast
  have dv: "defaultValidator ?args = sessionKeyPlugin ?env v"
    and pl: "plugin ?args = Some (ecdsaPlugin sampleEnv sampleEcdsa)"
    by (simp_all add: sampleKernelArgs_def)
  have "kernel_signUserOperation account (sampleUserOperation ''0x'') = Inl NotImplemented"
    using C10_session_key_cannot_approve_a_plugin [OF account dv pl] by simp
  with v account show ?thesis by simp
qed

end
